theory Spec2Isabelle
  imports Main
begin

section \<open>Text\<close>

text \<open>
  The source works on Python \<open>str\<close> values, sequences of code points. A text is modelled
  as a \<open>string\<close>, each \<open>char\<close> standing for the code point of the same number, so the
  model covers the texts whose code points lie below 256. The character classes below
  are the ones Python's \<open>re\<close> module uses on \<open>str\<close> patterns, cut down to that range.
  (Beyond it, \<open>(?i)\<close> lets the letter I also match the code points 304 and 305, and the
  class \<open>[A-Z0-9_]\<close> also match 304, 305, 383 and 8490; \<open>\s\<close> and \<open>\w\<close> hold for further
  code points.)
\<close>

abbreviation NL :: char where
  "NL \<equiv> CHR 0x0A"

abbreviation SQ :: char where
  "SQ \<equiv> CHR 0x27"

abbreviation DQ :: char where
  "DQ \<equiv> CHR 0x22"

abbreviation DOT :: char where
  "DOT \<equiv> CHR ''.''"

text \<open>\<open>s[a:b]\<close> for \<open>0 \<le> a\<close> and \<open>0 \<le> b\<close>; both ends are clipped to the text.\<close>

definition slice :: "string \<Rightarrow> nat \<Rightarrow> nat \<Rightarrow> string" where
  "slice s a b = take (b - a) (drop a s)"

text \<open>\<open>s.count("\n")\<close>\<close>

definition count_nl :: "string \<Rightarrow> nat" where
  "count_nl s = length (filter (\<lambda>c. c = NL) s)"

text \<open>\<open>s.find(c, k)\<close>: the lowest index at or after \<open>k\<close> holding \<open>c\<close>; \<open>None\<close> is Python's -1.\<close>

definition find_chr :: "char \<Rightarrow> string \<Rightarrow> nat \<Rightarrow> nat option" where
  "find_chr c s k = List.find (\<lambda>i. s ! i = c) [k..<length s]"

text \<open>\<open>s.rfind(c, 0, hi)\<close>: the highest index below \<open>hi\<close> holding \<open>c\<close>.\<close>

definition rfind_chr :: "char \<Rightarrow> string \<Rightarrow> nat \<Rightarrow> nat option" where
  "rfind_chr c s hi = List.find (\<lambda>i. s ! i = c) (rev [0..<min hi (length s)])"

text \<open>\<open>s.replace("\n", "\\n")\<close>: every line feed becomes a backslash and the letter n.\<close>

definition replace_nl :: "string \<Rightarrow> string" where
  "replace_nl s = concat (map (\<lambda>c. if c = NL then [CHR 0x5C, CHR ''n''] else [c]) s)"

text \<open>\<open>sub in s\<close>\<close>

fun contains :: "string \<Rightarrow> string \<Rightarrow> bool" where
  "contains sub [] = (sub = [])"
| "contains sub (c # cs) = (take (length sub) (c # cs) = sub \<or> contains sub cs)"

text \<open>
  \<open>str.upper\<close> on the letters a to z. The source applies it to the \<open>fname\<close> group only,
  which holds letters, digits and underscores (\<open>name_group_is_identifier\<close> below).
\<close>

definition upper_chr :: "char \<Rightarrow> char" where
  "upper_chr c = (let n = (of_char c :: nat) in if 97 \<le> n \<and> n \<le> 122 then char_of (n - 32) else c)"

definition upper :: "string \<Rightarrow> string" where
  "upper s = map upper_chr s"

text \<open>\<open>\s\<close> on a \<open>str\<close> pattern: the code points for which \<open>str.isspace\<close> holds.\<close>

definition is_space :: "char \<Rightarrow> bool" where
  "is_space c = (let n = (of_char c :: nat) in
     (9 \<le> n \<and> n \<le> 13) \<or> (28 \<le> n \<and> n \<le> 32) \<or> n = 133 \<or> n = 160)"

text \<open>\<open>\w\<close> on a \<open>str\<close> pattern: the code points for which \<open>str.isalnum\<close> holds, and the underscore.\<close>

definition is_word :: "char \<Rightarrow> bool" where
  "is_word c = (let n = (of_char c :: nat) in
     (48 \<le> n \<and> n \<le> 57) \<or> (65 \<le> n \<and> n \<le> 90) \<or> n = 95 \<or> (97 \<le> n \<and> n \<le> 122) \<or>
     n = 170 \<or> n = 178 \<or> n = 179 \<or> n = 181 \<or> n = 185 \<or> n = 186 \<or>
     (188 \<le> n \<and> n \<le> 190) \<or> (192 \<le> n \<and> n \<le> 214) \<or> (216 \<le> n \<and> n \<le> 246) \<or> 248 \<le> n)"

text \<open>A literal letter of a pattern compiled with \<open>(?i)\<close>.\<close>

definition ci_eq :: "char \<Rightarrow> char \<Rightarrow> bool" where
  "ci_eq p c = (upper_chr c = upper_chr p)"

text \<open>The class \<open>[A-Z0-9_]\<close> of a pattern compiled with \<open>(?i)\<close>.\<close>

definition is_fname_chr :: "char \<Rightarrow> bool" where
  "is_fname_chr c = (let n = (of_char (upper_chr c) :: nat) in
     (65 \<le> n \<and> n \<le> 90) \<or> (48 \<le> n \<and> n \<le> 57) \<or> n = 95)"

section \<open>Backtracking regular expressions\<close>

text \<open>
  A pattern is a function from the text and a matcher state to the list of states the
  matcher can reach, in the order in which backtracking tries them: the head of the list
  is the match \<open>re\<close> reports. A state is the position in the text and the span of the
  group \<open>fname\<close>, if the group has matched.
\<close>

type_synonym mstate = "nat \<times> (nat \<times> nat) option"

type_synonym rx = "string \<Rightarrow> mstate \<Rightarrow> mstate list"

text \<open>One character of a class.\<close>

definition rx_chr :: "(char \<Rightarrow> bool) \<Rightarrow> rx" where
  "rx_chr P s st = (case st of (i, g) \<Rightarrow> if i < length s \<and> P (s ! i) then [(Suc i, g)] else [])"

text \<open>\<open>\b\<close>: exactly one of the characters before and at the position is a word character.\<close>

definition rx_wordb :: rx where
  "rx_wordb s st = (case st of (i, g) \<Rightarrow>
     if (0 < i \<and> i \<le> length s \<and> is_word (s ! (i - 1))) \<noteq> (i < length s \<and> is_word (s ! i))
     then [(i, g)] else [])"

definition rx_eps :: rx where
  "rx_eps s st = [st]"

definition rx_seq :: "rx \<Rightarrow> rx \<Rightarrow> rx" where
  "rx_seq r1 r2 s st = concat (map (r2 s) (r1 s st))"

text \<open>\<open>r1|r2\<close>: the alternatives of \<open>r1\<close> are tried first.\<close>

definition rx_alt :: "rx \<Rightarrow> rx \<Rightarrow> rx" where
  "rx_alt r1 r2 s st = r1 s st @ r2 s st"

text \<open>The number of characters of the class \<open>P\<close> from position \<open>i\<close> on.\<close>

definition run_len :: "(char \<Rightarrow> bool) \<Rightarrow> string \<Rightarrow> nat \<Rightarrow> nat" where
  "run_len P s i = length (takeWhile P (drop i s))"

text \<open>\<open>[P]*\<close>, greedy: the longest run first, then one character less at a time.\<close>

definition rx_star :: "(char \<Rightarrow> bool) \<Rightarrow> rx" where
  "rx_star P s st = (case st of (i, g) \<Rightarrow> map (\<lambda>k. (i + k, g)) (rev [0..<Suc (run_len P s i)]))"

text \<open>\<open>[P]+\<close>, greedy.\<close>

definition rx_plus :: "(char \<Rightarrow> bool) \<Rightarrow> rx" where
  "rx_plus P s st = (case st of (i, g) \<Rightarrow> map (\<lambda>k. (i + k, g)) (rev [1..<Suc (run_len P s i)]))"

text \<open>The named group: records the span its body matched.\<close>

definition rx_group :: "rx \<Rightarrow> rx" where
  "rx_group r s st = (case st of (i, g) \<Rightarrow> map (\<lambda>(j, _). (j, Some (i, j))) (r s st))"

text \<open>A literal word of a pattern compiled with \<open>(?i)\<close>.\<close>

primrec rx_lit_i :: "string \<Rightarrow> rx" where
  "rx_lit_i [] = rx_eps"
| "rx_lit_i (c # cs) = rx_seq (rx_chr (ci_eq c)) (rx_lit_i cs)"

definition rx_cat :: "rx list \<Rightarrow> rx" where
  "rx_cat rs = foldr rx_seq rs rx_eps"

text \<open>\<open>(?:'|"|)\<close>\<close>

definition rx_quote_opt :: rx where
  "rx_quote_opt = rx_alt (rx_chr (\<lambda>c. c = SQ)) (rx_alt (rx_chr (\<lambda>c. c = DQ)) rx_eps)"

text \<open>A match object: \<open>m.start()\<close>, \<open>m.end()\<close> and the span of the group \<open>fname\<close>.\<close>

record re_match =
  m_start :: nat
  m_end :: nat
  m_fname :: "(nat \<times> nat) option"

text \<open>The state the backtracking matcher stops in: the first one it reaches.\<close>

definition rx_first :: "rx \<Rightarrow> string \<Rightarrow> mstate \<Rightarrow> mstate option" where
  "rx_first r s st = (case r s st of [] \<Rightarrow> None | y # _ \<Rightarrow> Some y)"

definition match_at :: "rx \<Rightarrow> string \<Rightarrow> nat \<Rightarrow> re_match option" where
  "match_at r s i = (case rx_first r s (i, None) of
     None \<Rightarrow> None
   | Some (e, g) \<Rightarrow> Some \<lparr>m_start = i, m_end = e, m_fname = g\<rparr>)"

text \<open>\<open>pattern.search(s, p)\<close>: the match at the first position from \<open>p\<close> on that has one.\<close>

definition re_search :: "rx \<Rightarrow> string \<Rightarrow> nat \<Rightarrow> re_match option" where
  "re_search r s p = (case List.find (\<lambda>i. match_at r s i \<noteq> None) [p..<Suc (length s)] of
     None \<Rightarrow> None
   | Some i \<Rightarrow> match_at r s i)"

text \<open>
  \<open>pattern.finditer(s)\<close> from position \<open>p\<close>: the matches from left to right, each search
  starting where the previous match ended. A match of \<open>STMT_RE\<close> is never empty
  (\<open>re_search_stmt\<close> below), so the step past an empty match is never taken there
  (\<open>finditer_stmt_step\<close>).
\<close>

function finditer :: "rx \<Rightarrow> string \<Rightarrow> nat \<Rightarrow> re_match list" where
  "finditer r s p = (case re_search r s p of
     None \<Rightarrow> []
   | Some m \<Rightarrow> m # finditer r s (if m_start m < m_end m then m_end m else Suc (m_start m)))"
  by pat_completeness auto
termination
proof (relation "measure (\<lambda>(r, s, p). Suc (length s) - p)")
  show "wf (measure (\<lambda>(r, s, p). Suc (length s) - p))" by simp
next
  fix r :: rx and s :: string and p :: nat and m :: re_match
  assume srch: "re_search r s p = Some m"
  then obtain i where fnd: "List.find (\<lambda>i. match_at r s i \<noteq> None) [p..<Suc (length s)] = Some i"
    and mat: "match_at r s i = Some m"
    by (auto simp: re_search_def split: option.splits)
  from fnd have "i \<in> set [p..<Suc (length s)]"
    unfolding find_Some_iff by (metis nth_mem)
  then have rng: "p \<le> i \<and> i \<le> length s"
    by auto
  from mat have "m_start m = i"
    by (auto simp: match_at_def split: option.splits)
  with rng show "((r, s, if m_start m < m_end m then m_end m else Suc (m_start m)), (r, s, p))
      \<in> measure (\<lambda>(r, s, p). Suc (length s) - p)"
    by auto
qed

text \<open>\<open>m.group(0)\<close> and \<open>m.group("fname")\<close>; a group that took no part in the match is \<open>None\<close>.\<close>

definition group0 :: "string \<Rightarrow> re_match \<Rightarrow> string" where
  "group0 s m = slice s (m_start m) (m_end m)"

definition group_fname :: "string \<Rightarrow> re_match \<Rightarrow> string option" where
  "group_fname s m = map_option (\<lambda>(a, b). slice s a b) (m_fname m)"

section \<open>The detector\<close>

text \<open>\<open>(?is)\bCALL\s+FUNCTION\b[^.]*\.\<close>, compiled with \<open>re.DOTALL\<close>\<close>

definition STMT_RE :: rx where
  "STMT_RE = rx_cat [rx_wordb, rx_lit_i ''CALL'', rx_plus is_space, rx_lit_i ''FUNCTION'',
     rx_wordb, rx_star (\<lambda>c. c \<noteq> DOT), rx_chr (\<lambda>c. c = DOT)]"

text \<open>\<open>(?i)\bCALL\s+FUNCTION\s+(?:'|"|)\s*(?P<fname>[A-Z0-9_]+)\s*(?:'|"|)\<close>\<close>

definition FN_NAME_RE :: rx where
  "FN_NAME_RE = rx_cat [rx_wordb, rx_lit_i ''CALL'', rx_plus is_space, rx_lit_i ''FUNCTION'',
     rx_plus is_space, rx_quote_opt, rx_star is_space, rx_group (rx_plus is_fname_chr),
     rx_star is_space, rx_quote_opt]"

definition OBSOLETE_FMS :: "string set" where
  "OBSOLETE_FMS = {''WS_UPLOAD'', ''WS_DOWNLOAD'', ''UPLOAD'', ''DOWNLOAD''}"

record Finding =
  prog_name :: "string option"
  incl_name :: "string option"
  types :: "string option"
  blockname :: "string option"
  starting_line :: "int option"
  ending_line :: "int option"
  issues_type :: "string option"
  severity :: "string option"
  message :: "string option"
  suggestion :: "string option"
  snippet :: "string option"

record Unit =
  pgm_name :: string
  inc_name :: string
  type :: string
  name :: "string option"
  start_line :: "int option"
  end_line :: "int option"
  code :: "string option"
  findings :: "Finding list option"

definition get_line_snippet :: "string \<Rightarrow> nat \<Rightarrow> nat \<Rightarrow> string" where
  "get_line_snippet text start end' =
     (let line_start = (case rfind_chr NL text start of None \<Rightarrow> 0 | Some i \<Rightarrow> i + 1);
          line_end = (case find_chr NL text end' of None \<Rightarrow> length text | Some j \<Rightarrow> j)
      in slice text line_start line_end)"

definition UPLOAD_SUGGESTION :: string where
  "UPLOAD_SUGGESTION =
     ''Replace with Unicode-compliant APIs:'' @ [NL] @
     ''  CALL FUNCTION '' @ [SQ] @ ''GUI_UPLOAD'' @ [SQ, NL] @
     ''    EXPORTING'' @ [NL] @
     ''      filename = <path>'' @ [NL] @
     ''      filetype = '' @ [SQ] @ ''ASC'' @ [SQ, NL] @
     ''      encoding = '' @ [SQ] @ ''UTF-8'' @ [SQ, NL] @
     ''    TABLES'' @ [NL] @
     ''      data_tab = <itab>.'' @ [NL] @
     ''Or use CL_GUI_FRONTEND_SERVICES=>GUI_UPLOAD for OO style.''"

definition DOWNLOAD_SUGGESTION :: string where
  "DOWNLOAD_SUGGESTION =
     ''Replace with Unicode-compliant APIs:'' @ [NL] @
     ''  CALL FUNCTION '' @ [SQ] @ ''GUI_DOWNLOAD'' @ [SQ, NL] @
     ''    EXPORTING'' @ [NL] @
     ''      filename = <path>'' @ [NL] @
     ''      filetype = '' @ [SQ] @ ''ASC'' @ [SQ, NL] @
     ''      encoding = '' @ [SQ] @ ''UTF-8'' @ [SQ, NL] @
     ''    TABLES'' @ [NL] @
     ''      data_tab = <itab>.'' @ [NL] @
     ''Or use CL_GUI_FRONTEND_SERVICES=>GUI_DOWNLOAD for OO style.''"

text \<open>What the source can raise: \<open>.upper()\<close> on a group that is \<open>None\<close>.\<close>

datatype error = AttributeError

text \<open>The finding built for the flagged name \<open>fm\<close> of the statement matched by \<open>m\<close>.\<close>

definition make_finding :: "Unit \<Rightarrow> string \<Rightarrow> int \<Rightarrow> re_match \<Rightarrow> string \<Rightarrow> Finding" where
  "make_finding unit src base_start m fm =
     (let stmt_start = m_start m;
          stmt_end = m_end m;
          suggestion = (if contains ''UPLOAD'' fm then UPLOAD_SUGGESTION else DOWNLOAD_SUGGESTION);
          line_in_block = int (count_nl (slice src 0 stmt_start)) + 1;
          snippet_line = get_line_snippet src stmt_start stmt_end;
          snippet_line_count = int (count_nl snippet_line) + 1;
          starting_line_abs = base_start + line_in_block;
          ending_line_abs = base_start + line_in_block + snippet_line_count
      in \<lparr>prog_name = Some (pgm_name unit),
          incl_name = Some (inc_name unit),
          types = Some (type unit),
          blockname = name unit,
          starting_line = Some starting_line_abs,
          ending_line = Some ending_line_abs,
          issues_type = Some ''ObsoleteUploadDownload'',
          severity = Some ''error'',
          message = Some (''Obsolete function module '' @ [SQ] @ fm @ [SQ] @ '' detected (non-Unicode).''),
          suggestion = Some suggestion,
          snippet = Some (replace_nl snippet_line)\<rparr>)"

text \<open>
  The first half of the loop body of \<open>scan_unit\<close> for the statement match \<open>m\<close>: the
  uppercased name of the function module when it is on the list, \<open>Inr None\<close> where the
  source goes on to the next match without a finding.
\<close>

definition stmt_fm :: "string \<Rightarrow> re_match \<Rightarrow> error + string option" where
  "stmt_fm src m =
     (let stmt = group0 src m in
      case re_search FN_NAME_RE stmt 0 of
        None \<Rightarrow> Inr None
      | Some name_match \<Rightarrow>
          (case group_fname stmt name_match of
             None \<Rightarrow> Inl AttributeError
           | Some g \<Rightarrow>
               (let fm = upper g in
                if fm \<in> OBSOLETE_FMS then Inr (Some fm) else Inr None)))"

text \<open>The loop body: the name, then the finding for it.\<close>

definition scan_stmt :: "Unit \<Rightarrow> string \<Rightarrow> int \<Rightarrow> re_match \<Rightarrow> error + Finding option" where
  "scan_stmt unit src base_start m =
     (case stmt_fm src m of
        Inl e \<Rightarrow> Inl e
      | Inr None \<Rightarrow> Inr None
      | Inr (Some fm) \<Rightarrow> Inr (Some (make_finding unit src base_start m fm)))"

text \<open>The loop over the statement matches, appending to the list \<open>fs\<close> of findings.\<close>

fun scan_loop :: "Unit \<Rightarrow> string \<Rightarrow> int \<Rightarrow> re_match list \<Rightarrow> Finding list \<Rightarrow> error + Finding list" where
  "scan_loop unit src base_start [] fs = Inr fs"
| "scan_loop unit src base_start (m # ms) fs =
     (case scan_stmt unit src base_start m of
        Inl e \<Rightarrow> Inl e
      | Inr None \<Rightarrow> scan_loop unit src base_start ms fs
      | Inr (Some finding) \<Rightarrow> scan_loop unit src base_start ms (fs @ [finding]))"

text \<open>\<open>unit.code or ""\<close> and \<open>unit.start_line or 0\<close>\<close>

definition src_of :: "Unit \<Rightarrow> string" where
  "src_of unit = (case code unit of None \<Rightarrow> [] | Some s \<Rightarrow> s)"

definition base_start_of :: "Unit \<Rightarrow> int" where
  "base_start_of unit = (case start_line unit of None \<Rightarrow> 0 | Some n \<Rightarrow> n)"

definition scan_unit :: "Unit \<Rightarrow> error + Unit" where
  "scan_unit unit =
     (let src = src_of unit;
          base_start = base_start_of unit
      in case scan_loop unit src base_start (finditer STMT_RE src 0) [] of
           Inl e \<Rightarrow> Inl e
         | Inr fs \<Rightarrow> Inr (unit\<lparr>findings := Some fs\<rparr>))"

text \<open>\<open>if res.findings\<close>: the list is there and not empty.\<close>

definition has_findings :: "Unit \<Rightarrow> bool" where
  "has_findings res = (case findings res of None \<Rightarrow> False | Some fs \<Rightarrow> fs \<noteq> [])"

fun scan_rule_array_loop :: "Unit list \<Rightarrow> Unit list \<Rightarrow> error + Unit list" where
  "scan_rule_array_loop [] results = Inr results"
| "scan_rule_array_loop (u # us) results =
     (case scan_unit u of
        Inl e \<Rightarrow> Inl e
      | Inr res \<Rightarrow> scan_rule_array_loop us (if has_findings res then results @ [res] else results))"

definition scan_rule_array :: "Unit list \<Rightarrow> error + Unit list" where
  "scan_rule_array units = scan_rule_array_loop units []"

definition scan_rule_single :: "Unit \<Rightarrow> error + Unit" where
  "scan_rule_single unit = scan_unit unit"

section \<open>The caller's unit as an object\<close>

text \<open>
  Python passes the unit by reference. To speak about the caller's object, the units live
  in a store, a list whose indices are the references; \<open>Unit(**unit.model_dump())\<close>
  allocates a new object at the end of the store, and \<open>out_unit.findings = findings\<close>
  writes to that object.
\<close>

type_synonym ref = nat

type_synonym store = "Unit list"

definition scan_unit_ref :: "store \<Rightarrow> ref \<Rightarrow> error + (ref \<times> store)" where
  "scan_unit_ref h unit =
     (let src = src_of (h ! unit);
          base_start = base_start_of (h ! unit)
      in case scan_loop (h ! unit) src base_start (finditer STMT_RE src 0) [] of
           Inl e \<Rightarrow> Inl e
         | Inr fs \<Rightarrow>
             (let out_unit = length h;
                  h1 = h @ [h ! unit];
                  h2 = h1[out_unit := (h1 ! out_unit)\<lparr>findings := Some fs\<rparr>]
              in Inr (out_unit, h2)))"

section \<open>The statements that are reported\<close>

text \<open>The statement matches for which the loop body builds a finding, and the name it reports.\<close>

definition is_flagged :: "string \<Rightarrow> re_match \<Rightarrow> bool" where
  "is_flagged src m = (case stmt_fm src m of Inr (Some fm) \<Rightarrow> True | _ \<Rightarrow> False)"

definition fm_of :: "string \<Rightarrow> re_match \<Rightarrow> string" where
  "fm_of src m = (case stmt_fm src m of Inr (Some fm) \<Rightarrow> fm | _ \<Rightarrow> [])"

definition flagged :: "string \<Rightarrow> re_match list" where
  "flagged src = filter (is_flagged src) (finditer STMT_RE src 0)"

text \<open>The findings carried by a result; none where the call raised.\<close>

definition findings_of :: "error + Unit \<Rightarrow> Finding list" where
  "findings_of res = (case res of
     Inl e \<Rightarrow> []
   | Inr u \<Rightarrow> (case findings u of None \<Rightarrow> [] | Some fs \<Rightarrow> fs))"

section \<open>Call statements as they are written\<close>

text \<open>
  The text of a call statement: the two keywords with white space after each, the name of
  the function module between an opening and a closing quotation mark (either may be
  missing), the rest of the statement, and the full stop.
\<close>

definition call_stmt ::
    "string \<Rightarrow> string \<Rightarrow> string \<Rightarrow> string \<Rightarrow> string \<Rightarrow> string \<Rightarrow> string \<Rightarrow> string \<Rightarrow> string" where
  "call_stmt kw1 ws1 kw2 ws2 q1 nm q2 body = kw1 @ ws1 @ kw2 @ ws2 @ q1 @ nm @ q2 @ body @ [DOT]"

definition is_quote :: "string \<Rightarrow> bool" where
  "is_quote q = (q = [] \<or> q = [SQ] \<or> q = [DQ])"

text \<open>
  The parts have the shape of a call: the keywords in any mix of cases, the name made of
  letters, digits and underscores, no full stop before the final one (a statement is taken
  up to its first full stop, wherever that stands), and, where the closing quotation mark
  is missing, no letter, digit or underscore right after the name.
\<close>

definition call_shape ::
    "string \<Rightarrow> string \<Rightarrow> string \<Rightarrow> string \<Rightarrow> string \<Rightarrow> string \<Rightarrow> string \<Rightarrow> string \<Rightarrow> bool" where
  "call_shape kw1 ws1 kw2 ws2 q1 nm q2 body =
     (upper kw1 = ''CALL'' \<and> ws1 \<noteq> [] \<and> list_all is_space ws1 \<and>
      upper kw2 = ''FUNCTION'' \<and> ws2 \<noteq> [] \<and> list_all is_space ws2 \<and>
      is_quote q1 \<and> is_quote q2 \<and> nm \<noteq> [] \<and> list_all is_fname_chr nm \<and>
      DOT \<notin> set body \<and>
      (if q2 = [] then (case body of [] \<Rightarrow> True | c # _ \<Rightarrow> \<not> is_fname_chr c) else True))"

section \<open>Example units\<close>

text \<open>A call of \<open>WS_UPLOAD\<close> written over two lines.\<close>

definition scenario_code :: string where
  "scenario_code = ''CALL FUNCTION '' @ [SQ] @ ''WS_UPLOAD'' @ [SQ, NL] @ ''  EXPORTING x = y.''"

definition scenario_unit :: Unit where
  "scenario_unit = \<lparr>pgm_name = ''ZPROG'', inc_name = ''ZINCL'', type = ''FORM'', name = Some ''F1'',
     start_line = Some 0, end_line = Some 0, code = Some scenario_code, findings = None\<rparr>"

text \<open>
  Two other statements, then three calls: a single-quoted upper-case name on the third
  line, a double-quoted lower-case one on the fourth, a bare one on the fifth.
\<close>

definition lines_code :: string where
  "lines_code = ''DATA t TYPE i.'' @ [NL] @ ''WRITE t.'' @ [NL] @
     ''CALL FUNCTION '' @ [SQ] @ ''UPLOAD'' @ [SQ] @ ''.'' @ [NL] @
     ''call function '' @ [DQ] @ ''ws_download'' @ [DQ] @ '' exporting a = b.'' @ [NL] @
     ''CALL FUNCTION DOWNLOAD.''"

definition lines_unit :: Unit where
  "lines_unit = \<lparr>pgm_name = ''ZPROG'', inc_name = ''ZINCL'', type = ''FORM'', name = Some ''F1'',
     start_line = Some 100, end_line = Some 104, code = Some lines_code, findings = None\<rparr>"

text \<open>
  Units without findings: empty code, no call at all, a call of a function module that is
  not on the list, and a call that no full stop ends.
\<close>

definition empty_unit :: Unit where
  "empty_unit = \<lparr>pgm_name = ''ZPROG'', inc_name = ''ZINCL'', type = ''FORM'', name = Some ''F1'',
     start_line = Some 0, end_line = Some 0, code = Some [], findings = None\<rparr>"

definition quiet_unit :: Unit where
  "quiet_unit = \<lparr>pgm_name = ''ZPROG'', inc_name = ''ZINCL'', type = ''FORM'', name = None,
     start_line = None, end_line = None, code = Some ''WRITE t.'', findings = None\<rparr>"

definition modern_unit :: Unit where
  "modern_unit = \<lparr>pgm_name = ''ZPROG'', inc_name = ''ZINCL'', type = ''FORM'', name = Some ''F1'',
     start_line = Some 10, end_line = Some 10,
     code = Some (''CALL FUNCTION '' @ [SQ] @ ''GUI_UPLOAD'' @ [SQ] @ ''.''), findings = None\<rparr>"

definition open_unit :: Unit where
  "open_unit = \<lparr>pgm_name = ''ZPROG'', inc_name = ''ZINCL'', type = ''FORM'', name = Some ''F1'',
     start_line = Some 10, end_line = Some 10,
     code = Some (''CALL FUNCTION '' @ [SQ] @ ''WS_UPLOAD'' @ [SQ]), findings = None\<rparr>"

text \<open>A store of two objects.\<close>

definition two_units :: store where
  "two_units = [quiet_unit, scenario_unit\<lparr>findings := Some []\<rparr>]"

text \<open>A comment line that holds the keywords, then a call of \<open>WS_UPLOAD\<close>.\<close>

definition swallow_unit :: Unit where
  "swallow_unit = \<lparr>pgm_name = ''ZPROG'', inc_name = ''ZINCL'', type = ''FORM'', name = Some ''F1'',
     start_line = Some 1, end_line = Some 2,
     code = Some (''* CALL FUNCTION x'' @ [NL] @
       call_stmt ''CALL'' '' '' ''FUNCTION'' '' '' [SQ] ''WS_UPLOAD'' [SQ] []),
     findings = None\<rparr>"

text \<open>A call whose name has an opening quotation mark only, and one closed by the other mark.\<close>

definition unclosed_unit :: Unit where
  "unclosed_unit = \<lparr>pgm_name = ''ZPROG'', inc_name = ''ZINCL'', type = ''FORM'', name = Some ''F1'',
     start_line = Some 7, end_line = Some 7,
     code = Some (call_stmt ''CALL'' '' '' ''FUNCTION'' '' '' [SQ] ''WS_UPLOAD'' [] []),
     findings = None\<rparr>"

definition mixed_unit :: Unit where
  "mixed_unit = \<lparr>pgm_name = ''ZPROG'', inc_name = ''ZINCL'', type = ''FORM'', name = Some ''F1'',
     start_line = Some 7, end_line = Some 7,
     code = Some (call_stmt ''call'' '' '' ''function'' '' '' [SQ] ''download'' [DQ] '' EXPORTING a = b''),
     findings = None\<rparr>"

text \<open>A call with no white space between the second keyword and the quoted name.\<close>

definition tight_unit :: Unit where
  "tight_unit = \<lparr>pgm_name = ''ZPROG'', inc_name = ''ZINCL'', type = ''FORM'', name = Some ''F1'',
     start_line = Some 1, end_line = Some 1,
     code = Some (call_stmt ''CALL'' '' '' ''FUNCTION'' [] [SQ] ''WS_UPLOAD'' [SQ] []),
     findings = None\<rparr>"

text \<open>
  Calls whose name has an opening quotation mark only: one after a comment line that holds
  the keywords, one with no white space after the second keyword.
\<close>

definition unclosed_swallow_unit :: Unit where
  "unclosed_swallow_unit = \<lparr>pgm_name = ''ZPROG'', inc_name = ''ZINCL'', type = ''FORM'',
     name = Some ''F1'', start_line = Some 1, end_line = Some 2,
     code = Some (''* CALL FUNCTION x'' @ [NL] @
       call_stmt ''CALL'' '' '' ''FUNCTION'' '' '' [SQ] ''WS_UPLOAD'' [] []),
     findings = None\<rparr>"

definition unclosed_tight_unit :: Unit where
  "unclosed_tight_unit = \<lparr>pgm_name = ''ZPROG'', inc_name = ''ZINCL'', type = ''FORM'',
     name = Some ''F1'', start_line = Some 1, end_line = Some 1,
     code = Some (call_stmt ''CALL'' '' '' ''FUNCTION'' [] [SQ] ''WS_UPLOAD'' [] []),
     findings = None\<rparr>"

section \<open>Properties of the matcher and of the loop\<close>

declare finditer.simps [simp del]

subsection \<open>Character classes\<close>

lemma is_space_not_word: "is_space c \<Longrightarrow> \<not> is_word c"
  by (auto simp: is_space_def is_word_def Let_def)

lemma is_fname_chr_word: "is_fname_chr c \<Longrightarrow> is_word c"
  unfolding is_fname_chr_def is_word_def upper_chr_def Let_def
  by (cases "97 \<le> (of_char c :: nat) \<and> (of_char c :: nat) \<le> 122") auto

lemma is_fname_chr_not_space: "is_fname_chr c \<Longrightarrow> \<not> is_space c"
  using is_space_not_word is_fname_chr_word by blast

lemma upper_chr_idem: "upper_chr (upper_chr c) = upper_chr c"
  unfolding upper_chr_def Let_def
  by (cases "97 \<le> (of_char c :: nat) \<and> (of_char c :: nat) \<le> 122") auto

lemma is_word_upper: "is_word (upper_chr c) \<Longrightarrow> is_word c"
  unfolding is_word_def upper_chr_def Let_def
  by (cases "97 \<le> (of_char c :: nat) \<and> (of_char c :: nat) \<le> 122") auto

lemma is_space_upper: "is_space c \<Longrightarrow> is_space (upper_chr c)"
  unfolding is_space_def upper_chr_def Let_def
  by (cases "97 \<le> (of_char c :: nat) \<and> (of_char c :: nat) \<le> 122") auto

lemma is_fname_chr_upper: "is_fname_chr (upper_chr c) \<Longrightarrow> is_fname_chr c"
  by (simp add: is_fname_chr_def upper_chr_idem)

lemma fname_chr_facts:
  "\<not> is_fname_chr DOT" "\<not> is_fname_chr SQ" "\<not> is_fname_chr DQ"
  "\<not> is_space SQ" "\<not> is_space DQ" "\<not> is_space DOT"
  "is_word (CHR ''C'')" "is_word (CHR ''N'')" "\<not> is_space (CHR ''F'')"
  by code_simp+

lemma upper_append: "upper (a @ b) = upper a @ upper b"
  by (simp add: upper_def)

lemma upper_length: "upper w = upper lit \<Longrightarrow> length w = length lit"
  by (metis length_map upper_def)

lemma upper_CALL: "upper ''CALL'' = ''CALL''"
  by code_simp

lemma upper_FUNCTION: "upper ''FUNCTION'' = ''FUNCTION''"
  by code_simp

lemma len_CALL: "length ''CALL'' = 4"
  by simp

lemma len_FUNCTION: "length ''FUNCTION'' = 8"
  by simp

subsection \<open>Searching a text\<close>

lemma find_upt_Some:
  assumes "List.find P [a..<b] = Some i"
  shows "a \<le> i \<and> i < b \<and> P i \<and> (\<forall>j. a \<le> j \<and> j < i \<longrightarrow> \<not> P j)"
proof -
  from assms obtain k where k: "k < length [a..<b]" "P ([a..<b] ! k)" "i = [a..<b] ! k"
    "\<forall>j<k. \<not> P ([a..<b] ! j)"
    unfolding find_Some_iff by blast
  from k(1) have kb: "a + k < b" by simp
  with k(3) have ik: "i = a + k" by simp
  have "\<not> P j" if j: "a \<le> j \<and> j < i" for j
  proof -
    from j ik have jk: "j - a < k" by arith
    with kb have "a + (j - a) < b" by arith
    then have "[a..<b] ! (j - a) = a + (j - a)" by (rule nth_upt)
    moreover from j have "a + (j - a) = j" by arith
    ultimately show ?thesis using k(4) jk by auto
  qed
  with ik kb k(2) show ?thesis by simp
qed

lemma find_rev_upt_Some:
  assumes "List.find P (rev [a..<b]) = Some i"
  shows "a \<le> i \<and> i < b \<and> P i \<and> (\<forall>j. i < j \<and> j < b \<longrightarrow> \<not> P j)"
proof -
  from assms obtain k where k: "k < length (rev [a..<b])" "P (rev [a..<b] ! k)" "i = rev [a..<b] ! k"
    "\<forall>j<k. \<not> P (rev [a..<b] ! j)"
    unfolding find_Some_iff by blast
  from k(1) have kb: "k < b - a" by simp
  have nth: "rev [a..<b] ! n = b - 1 - n" if "n < b - a" for n
  proof -
    from that have "rev [a..<b] ! n = [a..<b] ! (length [a..<b] - Suc n)"
      by (simp add: rev_nth)
    also from that have "\<dots> = a + (b - a - Suc n)" by simp
    also from that have "\<dots> = b - 1 - n" by arith
    finally show ?thesis .
  qed
  from k(3) kb have ik: "i = b - 1 - k" by (simp add: nth)
  have "\<not> P j" if j: "i < j \<and> j < b" for j
  proof -
    from j ik kb have jk: "b - 1 - j < k" by arith
    with kb have "b - 1 - j < b - a" by arith
    then have "rev [a..<b] ! (b - 1 - j) = b - 1 - (b - 1 - j)" by (rule nth)
    moreover from j have "b - 1 - (b - 1 - j) = j" by arith
    ultimately show ?thesis using k(4) jk by auto
  qed
  moreover from ik kb have "a \<le> i \<and> i < b" by arith
  ultimately show ?thesis using k(2) k(3) by simp
qed

lemma in_set_slice:
  "x \<in> set (slice s a b) \<longleftrightarrow> (\<exists>j. a \<le> j \<and> j < b \<and> j < length s \<and> s ! j = x)"
proof
  assume "x \<in> set (slice s a b)"
  then obtain n where n: "n < length (slice s a b)" "slice s a b ! n = x"
    by (auto simp: in_set_conv_nth)
  then have "n < b - a" "a + n < length s" by (auto simp: slice_def)
  with n(2) have "s ! (a + n) = x" by (simp add: slice_def)
  with \<open>n < b - a\<close> \<open>a + n < length s\<close> show "\<exists>j. a \<le> j \<and> j < b \<and> j < length s \<and> s ! j = x"
    by (intro exI [of _ "a + n"]) auto
next
  assume "\<exists>j. a \<le> j \<and> j < b \<and> j < length s \<and> s ! j = x"
  then obtain j where j: "a \<le> j" "j < b" "j < length s" "s ! j = x" by blast
  then have "j - a < length (slice s a b)" by (auto simp: slice_def)
  moreover from j have "slice s a b ! (j - a) = x" by (simp add: slice_def)
  ultimately show "x \<in> set (slice s a b)" by (auto simp: in_set_conv_nth)
qed

lemma get_line_snippet_spec:
  assumes "st \<le> en" and "en \<le> length s"
  shows "\<exists>ls le. get_line_snippet s st en = slice s ls le \<and> ls \<le> st \<and> en \<le> le \<and> le \<le> length s \<and>
           (ls = 0 \<or> s ! (ls - 1) = NL) \<and> (le = length s \<or> s ! le = NL) \<and>
           NL \<notin> set (slice s ls st) \<and> NL \<notin> set (slice s en le)"
proof -
  define ls where "ls = (case rfind_chr NL s st of None \<Rightarrow> 0 | Some i \<Rightarrow> i + 1)"
  define le where "le = (case find_chr NL s en of None \<Rightarrow> length s | Some j \<Rightarrow> j)"
  have eq: "get_line_snippet s st en = slice s ls le"
    by (simp add: get_line_snippet_def ls_def le_def)
  from assms have mn: "min st (length s) = st" by simp
  have l: "ls \<le> st \<and> (ls = 0 \<or> s ! (ls - 1) = NL) \<and> NL \<notin> set (slice s ls st)"
  proof (cases "rfind_chr NL s st")
    case None
    then have "\<forall>j. j < st \<longrightarrow> s ! j \<noteq> NL"
      by (auto simp: rfind_chr_def mn find_None_iff)
    with None show ?thesis by (auto simp: ls_def in_set_slice)
  next
    case (Some i)
    then have "List.find (\<lambda>i. s ! i = NL) (rev [0..<st]) = Some i"
      by (simp add: rfind_chr_def mn)
    from find_rev_upt_Some [OF this] have "i < st" "s ! i = NL" "\<forall>j. i < j \<and> j < st \<longrightarrow> s ! j \<noteq> NL"
      by auto
    with Some show ?thesis by (auto simp: ls_def in_set_slice)
  qed
  have r: "en \<le> le \<and> le \<le> length s \<and> (le = length s \<or> s ! le = NL) \<and> NL \<notin> set (slice s en le)"
  proof (cases "find_chr NL s en")
    case None
    then have "\<forall>j. en \<le> j \<and> j < length s \<longrightarrow> s ! j \<noteq> NL"
      by (auto simp: find_chr_def find_None_iff)
    with None assms show ?thesis by (auto simp: le_def in_set_slice)
  next
    case (Some j)
    then have "List.find (\<lambda>i. s ! i = NL) [en..<length s] = Some j"
      by (simp add: find_chr_def)
    from find_upt_Some [OF this] have "en \<le> j" "j < length s" "s ! j = NL"
      "\<forall>k. en \<le> k \<and> k < j \<longrightarrow> s ! k \<noteq> NL"
      by auto
    with Some show ?thesis by (auto simp: le_def in_set_slice)
  qed
  from eq l r show ?thesis by blast
qed

lemma contains_iff: "contains sub s \<longleftrightarrow> (\<exists>p q. s = p @ sub @ q)"
proof (induction s)
  case Nil
  then show ?case by auto
next
  case (Cons c cs)
  show ?case
  proof
    assume "contains sub (c # cs)"
    then consider "take (length sub) (c # cs) = sub" | "contains sub cs" by auto
    then show "\<exists>p q. c # cs = p @ sub @ q"
    proof cases
      case 1
      then have "c # cs = [] @ sub @ drop (length sub) (c # cs)"
        by (metis append_Nil append_take_drop_id)
      then show ?thesis by blast
    next
      case 2
      with Cons.IH obtain p q where "cs = p @ sub @ q" by blast
      then have "c # cs = (c # p) @ sub @ q" by simp
      then show ?thesis by blast
    qed
  next
    assume "\<exists>p q. c # cs = p @ sub @ q"
    then obtain p q where pq: "c # cs = p @ sub @ q" by blast
    show "contains sub (c # cs)"
    proof (cases p)
      case Nil
      with pq have "take (length sub) (c # cs) = sub" by simp
      then show ?thesis by simp
    next
      case (Cons a p')
      with pq have "cs = p' @ sub @ q" by simp
      with Cons.IH have "contains sub cs" by blast
      then show ?thesis by simp
    qed
  qed
qed

lemma call_in_text:
  assumes "upper (slice s i (i + 4)) = ''CALL''"
  shows "contains ''CALL'' (upper s)"
proof -
  have "s = take i s @ slice s i (i + 4) @ drop (i + 4) s"
    by (simp add: slice_def) (metis append_take_drop_id drop_drop add.commute)
  then have "upper s = upper (take i s) @ upper (slice s i (i + 4)) @ upper (drop (i + 4) s)"
    by (metis upper_append)
  with assms show ?thesis unfolding contains_iff by metis
qed

subsection \<open>The states a pattern can reach\<close>

lemma in_rx_seq: "y \<in> set (rx_seq r1 r2 s x) \<longleftrightarrow> (\<exists>m \<in> set (r1 s x). y \<in> set (r2 s m))"
  by (auto simp: rx_seq_def)

lemma in_rx_chr: "y \<in> set (rx_chr P s (i, g)) \<longleftrightarrow> (i < length s \<and> P (s ! i) \<and> y = (Suc i, g))"
  by (auto simp: rx_chr_def)

lemma in_rx_wordb: "y \<in> set (rx_wordb s (i, g)) \<Longrightarrow> y = (i, g)"
  by (auto simp: rx_wordb_def split: if_splits)

lemma run_len_le: "i + run_len P s i \<le> max i (length s)"
proof -
  have "length (takeWhile P (drop i s)) \<le> length (drop i s)"
    by (rule length_takeWhile_le)
  then show ?thesis by (simp add: run_len_def)
qed

lemma run_len_bound: "i \<le> length s \<Longrightarrow> i + run_len P s i \<le> length s"
  using run_len_le [of i P s] by simp

lemma run_len_chars:
  assumes "k \<le> run_len P s i" and "i \<le> j" and "j < i + k"
  shows "j < length s \<and> P (s ! j)"
proof -
  let ?t = "takeWhile P (drop i s)"
  from assms have jt: "j - i < length ?t" by (simp add: run_len_def)
  then have "?t ! (j - i) \<in> set ?t" by (rule nth_mem)
  then have p: "P (?t ! (j - i))" by (rule set_takeWhileD [THEN conjunct2])
  from jt have "?t ! (j - i) = drop i s ! (j - i)" by (rule takeWhile_nth)
  moreover from jt have d: "j - i < length (drop i s)"
    using length_takeWhile_le [of P "drop i s"] by simp
  ultimately have "?t ! (j - i) = s ! j" using assms(2) by simp
  with p d assms(2) show ?thesis by simp
qed

lemma in_rx_star: "y \<in> set (rx_star P s (i, g)) \<longleftrightarrow> (\<exists>k \<le> run_len P s i. y = (i + k, g))"
  by (auto simp: rx_star_def less_Suc_eq_le)

lemma in_rx_plus: "y \<in> set (rx_plus P s (i, g)) \<longleftrightarrow> (\<exists>k. 0 < k \<and> k \<le> run_len P s i \<and> y = (i + k, g))"
  by (auto simp: rx_plus_def less_Suc_eq_le Suc_le_eq)

lemma in_rx_eps: "y \<in> set (rx_eps s x) \<longleftrightarrow> y = x"
  by (simp add: rx_eps_def)

lemma in_rx_alt: "y \<in> set (rx_alt r1 r2 s x) \<longleftrightarrow> y \<in> set (r1 s x) \<or> y \<in> set (r2 s x)"
  by (simp add: rx_alt_def)

lemma in_rx_group: "y \<in> set (rx_group r s (i, g)) \<longleftrightarrow> (\<exists>j g'. (j, g') \<in> set (r s (i, g)) \<and> y = (j, Some (i, j)))"
  by (force simp: rx_group_def)

lemma rx_cat_Cons: "rx_cat (r # rs) = rx_seq r (rx_cat rs)"
  by (simp add: rx_cat_def)

lemma rx_cat_Nil: "rx_cat [] = rx_eps"
  by (simp add: rx_cat_def)

lemma in_rx_lit_i:
  "y \<in> set (rx_lit_i lit s (i, g)) \<Longrightarrow> i \<le> length s \<Longrightarrow>
     y = (i + length lit, g) \<and> i + length lit \<le> length s \<and> upper (slice s i (i + length lit)) = upper lit"
proof (induction lit arbitrary: i)
  case Nil
  then show ?case by (simp add: rx_eps_def slice_def upper_def)
next
  case (Cons c cs)
  from Cons.prems have i: "i < length s" and ci: "ci_eq c (s ! i)" and y: "y \<in> set (rx_lit_i cs s (Suc i, g))"
    by (auto simp: in_rx_seq in_rx_chr)
  from Cons.IH [OF y] i have a: "y = (Suc i + length cs, g)" and b: "Suc i + length cs \<le> length s"
    and c: "upper (slice s (Suc i) (Suc i + length cs)) = upper cs" by auto
  have "slice s i (i + length (c # cs)) = s ! i # slice s (Suc i) (Suc i + length cs)"
    using i by (simp add: slice_def Cons_nth_drop_Suc [symmetric])
  with a b c ci show ?case by (simp add: upper_def ci_eq_def)
qed

lemma stmt_re_shape:
  assumes m: "(e, g') \<in> set (STMT_RE s (i, g))" and i: "i \<le> length s"
  shows "g' = g \<and> i + 14 \<le> e \<and> e \<le> length s \<and> s ! (e - 1) = DOT \<and>
         upper (slice s i (i + 4)) = ''CALL''"
proof -
  from m obtain x1 x2 x3 x4 x5 x6 where
    1: "x1 \<in> set (rx_wordb s (i, g))" and
    2: "x2 \<in> set (rx_lit_i ''CALL'' s x1)" and
    3: "x3 \<in> set (rx_plus is_space s x2)" and
    4: "x4 \<in> set (rx_lit_i ''FUNCTION'' s x3)" and
    5: "x5 \<in> set (rx_wordb s x4)" and
    6: "x6 \<in> set (rx_star (\<lambda>c. c \<noteq> DOT) s x5)" and
    7: "(e, g') \<in> set (rx_chr (\<lambda>c. c = DOT) s x6)"
    unfolding STMT_RE_def rx_cat_Cons rx_cat_Nil in_rx_seq
    by (auto simp: in_rx_eps)
  from 1 have x1: "x1 = (i, g)" by (rule in_rx_wordb)
  from 2 have "x2 \<in> set (rx_lit_i ''CALL'' s (i, g))" unfolding x1 .
  from in_rx_lit_i [OF this i] have x2: "x2 = (i + 4, g)" and b2: "i + 4 \<le> length s"
    and call: "upper (slice s i (i + 4)) = ''CALL''"
    by (simp_all only: len_CALL upper_CALL)
  from 3 obtain k where k: "0 < k" "k \<le> run_len is_space s (i + 4)" and x3: "x3 = (i + 4 + k, g)"
    unfolding x2 in_rx_plus by auto
  from k b2 have b3: "i + 4 + k \<le> length s"
    using run_len_bound [of "i + 4" s is_space] by simp
  from 4 have "x4 \<in> set (rx_lit_i ''FUNCTION'' s (i + 4 + k, g))" unfolding x3 .
  from in_rx_lit_i [OF this b3] have x4: "x4 = (i + 4 + k + 8, g)" and b4: "i + 4 + k + 8 \<le> length s"
    by (simp_all only: len_FUNCTION)
  from 5 have x5: "x5 = (i + 4 + k + 8, g)" unfolding x4 by (rule in_rx_wordb)
  from 6 obtain n where x6: "x6 = (i + 4 + k + 8 + n, g)"
    unfolding x5 in_rx_star by auto
  from 7 have d: "i + 4 + k + 8 + n < length s" "s ! (i + 4 + k + 8 + n) = DOT"
    and e: "e = Suc (i + 4 + k + 8 + n)" and g: "g' = g"
    unfolding x6 in_rx_chr by auto
  from e have "e - 1 = i + 4 + k + 8 + n" by simp
  with d have "s ! (e - 1) = DOT" by simp
  moreover from e k d have "i + 14 \<le> e" "e \<le> length s" by simp_all
  ultimately show ?thesis using g call by simp
qed

lemma rx_quote_opt_keeps:
  "(j, g') \<in> set (rx_quote_opt s (i, g)) \<Longrightarrow> g' = g"
  by (auto simp: rx_quote_opt_def in_rx_alt in_rx_chr in_rx_eps)

lemma fn_name_re_group:
  assumes m: "(e, g') \<in> set (FN_NAME_RE s (i, g))"
  shows "\<exists>a b. g' = Some (a, b)"
proof -
  from m obtain x7 x8 x9 where
    8: "x8 \<in> set (rx_group (rx_plus is_fname_chr) s x7)" and
    9: "x9 \<in> set (rx_star is_space s x8)" and
    10: "(e, g') \<in> set (rx_quote_opt s x9)"
    unfolding FN_NAME_RE_def rx_cat_Cons rx_cat_Nil in_rx_seq
    by (auto simp: in_rx_eps)
  from 8 obtain j a where x8: "x8 = (j, Some (a, j))"
    by (cases x7) (auto simp: in_rx_group)
  from 9 obtain j' where x9: "x9 = (j', Some (a, j))"
    unfolding x8 in_rx_star by auto
  from 10 show ?thesis unfolding x9 by (auto dest: rx_quote_opt_keeps)
qed

lemma fn_name_group_chars:
  assumes m: "(e, Some (a, b)) \<in> set (FN_NAME_RE s (i, None))"
  shows "a < b \<and> b \<le> length s \<and> list_all is_fname_chr (slice s a b)"
proof -
  from m obtain x7 x8 x9 where
    8: "x8 \<in> set (rx_group (rx_plus is_fname_chr) s x7)" and
    9: "x9 \<in> set (rx_star is_space s x8)" and
    10: "(e, Some (a, b)) \<in> set (rx_quote_opt s x9)"
    unfolding FN_NAME_RE_def rx_cat_Cons rx_cat_Nil in_rx_seq
    by (auto simp: in_rx_eps)
  obtain p g where x7: "x7 = (p, g)" by (cases x7)
  from 8 obtain k where k: "0 < k" "k \<le> run_len is_fname_chr s p" and x8: "x8 = (p + k, Some (p, p + k))"
    unfolding x7 in_rx_group in_rx_plus by auto
  from 9 obtain j' where x9: "x9 = (j', Some (p, p + k))"
    unfolding x8 in_rx_star by auto
  from 10 have "Some (a, b) = Some (p, p + k)"
    unfolding x9 by (rule rx_quote_opt_keeps)
  then have ab: "a = p" "b = p + k" by simp_all
  have all: "\<forall>j. p \<le> j \<and> j < p + k \<longrightarrow> j < length s \<and> is_fname_chr (s ! j)"
    using run_len_chars [OF k(2)] by blast
  from k(1) all have "p + k - 1 < length s" by simp
  with k(1) have "p + k \<le> length s" by simp
  moreover from all have "list_all is_fname_chr (slice s p (p + k))"
    by (auto simp: list_all_iff in_set_slice)
  ultimately show ?thesis using k(1) ab by simp
qed

subsection \<open>Matches, search and iteration\<close>

lemma rx_first_in: "rx_first r s x = Some y \<Longrightarrow> y \<in> set (r s x)"
  by (auto simp: rx_first_def split: list.splits)

lemma match_at_start: "match_at r s i = Some m \<Longrightarrow> m_start m = i"
  by (auto simp: match_at_def split: option.splits)

lemma match_at_in:
  "match_at r s i = Some m \<Longrightarrow> (m_end m, m_fname m) \<in> set (r s (i, None))"
  by (auto simp: match_at_def split: option.splits dest: rx_first_in)

lemma match_at_stmt:
  assumes "match_at STMT_RE s i = Some m" and "i \<le> length s"
  shows "m_start m = i \<and> i + 14 \<le> m_end m \<and> m_end m \<le> length s \<and> m_fname m = None \<and>
         s ! (m_end m - 1) = DOT \<and> upper (slice s i (i + 4)) = ''CALL''"
  using stmt_re_shape [OF match_at_in [OF assms(1)] assms(2)] match_at_start [OF assms(1)]
  by simp

lemma re_search_Some:
  assumes "re_search r s p = Some m"
  shows "p \<le> m_start m \<and> m_start m \<le> length s \<and> match_at r s (m_start m) = Some m \<and>
         (\<forall>j. p \<le> j \<and> j < m_start m \<longrightarrow> match_at r s j = None)"
proof -
  from assms obtain i where fnd: "List.find (\<lambda>i. match_at r s i \<noteq> None) [p..<Suc (length s)] = Some i"
    and mat: "match_at r s i = Some m"
    by (auto simp: re_search_def split: option.splits)
  from fnd obtain k where k: "k < length [p..<Suc (length s)]" "i = [p..<Suc (length s)] ! k"
    "\<forall>j<k. \<not> (match_at r s ([p..<Suc (length s)] ! j) \<noteq> None)"
    unfolding find_Some_iff by blast
  from k(1) have kb: "p + k < Suc (length s)" unfolding length_upt by arith
  with k(2) have ik: "i = p + k" by (simp only: nth_upt)
  have "\<forall>j. p \<le> j \<and> j < i \<longrightarrow> match_at r s j = None"
  proof (intro allI impI)
    fix j assume j: "p \<le> j \<and> j < i"
    then have jk: "j - p < k" using ik by arith
    then have "p + (j - p) < Suc (length s)" using kb by arith
    then have "[p..<Suc (length s)] ! (j - p) = p + (j - p)" by (simp only: nth_upt)
    moreover from j have "p + (j - p) = j" by arith
    ultimately show "match_at r s j = None" using k(3) jk by auto
  qed
  with ik kb mat match_at_start [OF mat] show ?thesis by simp
qed

lemma re_search_None:
  "re_search r s p = None \<longleftrightarrow> (\<forall>j. p \<le> j \<and> j \<le> length s \<longrightarrow> match_at r s j = None)"
proof
  assume n: "re_search r s p = None"
  show "\<forall>j. p \<le> j \<and> j \<le> length s \<longrightarrow> match_at r s j = None"
  proof (cases "List.find (\<lambda>i. match_at r s i \<noteq> None) [p..<Suc (length s)]")
    case None
    then show ?thesis by (auto simp: find_None_iff)
  next
    case (Some i)
    with n have "match_at r s i = None" by (simp add: re_search_def)
    moreover from Some have "match_at r s i \<noteq> None" by (auto simp: find_Some_iff)
    ultimately show ?thesis by simp
  qed
next
  assume "\<forall>j. p \<le> j \<and> j \<le> length s \<longrightarrow> match_at r s j = None"
  then have "List.find (\<lambda>i. match_at r s i \<noteq> None) [p..<Suc (length s)] = None"
    by (auto simp: find_None_iff)
  then show "re_search r s p = None" by (simp add: re_search_def)
qed

lemma re_search_stmt:
  assumes "re_search STMT_RE s p = Some m"
  shows "p \<le> m_start m \<and> m_start m + 14 \<le> m_end m \<and> m_end m \<le> length s \<and>
         match_at STMT_RE s (m_start m) = Some m"
proof -
  from re_search_Some [OF assms] have a: "p \<le> m_start m" "m_start m \<le> length s"
    "match_at STMT_RE s (m_start m) = Some m" by simp_all
  from match_at_stmt [OF a(3) a(2)] a show ?thesis by simp
qed

lemma finditer_stmt_step:
  "finditer STMT_RE s p = (case re_search STMT_RE s p of
     None \<Rightarrow> [] | Some m \<Rightarrow> m # finditer STMT_RE s (m_end m))"
proof (cases "re_search STMT_RE s p")
  case None
  then show ?thesis by (simp add: finditer.simps [of STMT_RE s p])
next
  case (Some m)
  from re_search_stmt [OF Some] have "m_start m < m_end m" by simp
  with Some show ?thesis by (simp add: finditer.simps [of STMT_RE s p])
qed

lemma finditer_stmt_in:
  "m \<in> set (finditer STMT_RE s p) \<Longrightarrow>
     p \<le> m_start m \<and> m_start m + 14 \<le> m_end m \<and> m_end m \<le> length s \<and>
     match_at STMT_RE s (m_start m) = Some m"
proof (induction "Suc (length s) - p" arbitrary: p rule: less_induct)
  case less
  show ?case
  proof (cases "re_search STMT_RE s p")
    case None
    with less.prems show ?thesis by (simp add: finditer_stmt_step [of s p])
  next
    case (Some m0)
    note b = re_search_stmt [OF Some]
    from less.prems Some have "m = m0 \<or> m \<in> set (finditer STMT_RE s (m_end m0))"
      by (simp add: finditer_stmt_step [of s p])
    then show ?thesis
    proof
      assume "m = m0"
      with b show ?thesis by simp
    next
      assume r: "m \<in> set (finditer STMT_RE s (m_end m0))"
      from b have "Suc (length s) - m_end m0 < Suc (length s) - p" by arith
      from less.hyps [OF this r] b show ?thesis by simp
    qed
  qed
qed

lemma finditer_stmt_sorted:
  "sorted_wrt (\<lambda>a b. m_end a \<le> m_start b) (finditer STMT_RE s p)"
proof (induction "Suc (length s) - p" arbitrary: p rule: less_induct)
  case less
  show ?case
  proof (cases "re_search STMT_RE s p")
    case None
    then show ?thesis by (simp add: finditer_stmt_step [of s p])
  next
    case (Some m0)
    note b = re_search_stmt [OF Some]
    from b have d: "Suc (length s) - m_end m0 < Suc (length s) - p" by arith
    have "\<forall>m \<in> set (finditer STMT_RE s (m_end m0)). m_end m0 \<le> m_start m"
      using finditer_stmt_in by blast
    with less.hyps [OF d] Some show ?thesis
      by (simp add: finditer_stmt_step [of s p])
  qed
qed

lemma finditer_stmt_starts_sorted:
  "sorted_wrt (\<lambda>a b. m_start a < m_start b) (finditer STMT_RE s p)"
proof -
  have "sorted_wrt (\<lambda>a b. m_end a \<le> m_start b \<and> a \<in> set (finditer STMT_RE s p))
      (finditer STMT_RE s p)"
    using finditer_stmt_sorted [of s p]
    by (auto simp: sorted_wrt_iff_nth_less)
  then show ?thesis
  proof (rule sorted_wrt_mono_rel [rotated])
    fix a b
    assume "m_end a \<le> m_start b \<and> a \<in> set (finditer STMT_RE s p)"
    with finditer_stmt_in [of a s p] show "m_start a < m_start b" by simp
  qed
qed

lemma finditer_stmt_shape:
  assumes "m \<in> set (finditer STMT_RE s p)"
  shows "upper (slice s (m_start m) (m_start m + 4)) = ''CALL'' \<and> DOT \<in> set (drop (m_start m) s)"
proof -
  from finditer_stmt_in [OF assms] have b: "m_start m + 14 \<le> m_end m" "m_end m \<le> length s"
    and ma: "match_at STMT_RE s (m_start m) = Some m" by simp_all
  from b have "m_start m \<le> length s" by simp
  from match_at_stmt [OF ma this] have c: "upper (slice s (m_start m) (m_start m + 4)) = ''CALL''"
    and d: "s ! (m_end m - 1) = DOT" by simp_all
  from b have "m_end m - 1 - m_start m < length (drop (m_start m) s)" by simp
  moreover from b have "drop (m_start m) s ! (m_end m - 1 - m_start m) = s ! (m_end m - 1)"
    by simp
  ultimately have "DOT \<in> set (drop (m_start m) s)"
    using d by (metis nth_mem)
  with c show ?thesis by simp
qed

lemma finditer_reaches:
  assumes ma: "match_at STMT_RE s n = Some m0" and n: "n \<le> length s"
    and clear: "\<forall>i<n. \<forall>m. match_at STMT_RE s i = Some m \<longrightarrow> m_end m \<le> n"
    and p: "p \<le> n"
  shows "m0 \<in> set (finditer STMT_RE s p)"
  using p
proof (induction "n - p" arbitrary: p rule: less_induct)
  case less
  have "re_search STMT_RE s p \<noteq> None"
    using ma n less.prems by (auto simp: re_search_None)
  then obtain m where srch: "re_search STMT_RE s p = Some m" by blast
  from re_search_Some [OF srch] have a: "p \<le> m_start m" "match_at STMT_RE s (m_start m) = Some m"
    "\<forall>j. p \<le> j \<and> j < m_start m \<longrightarrow> match_at STMT_RE s j = None" by simp_all
  from re_search_stmt [OF srch] have b: "m_start m + 14 \<le> m_end m" by simp
  from a(3) ma less.prems have le: "m_start m \<le> n" by (metis not_le_imp_less option.distinct(1))
  have step: "finditer STMT_RE s p = m # finditer STMT_RE s (m_end m)"
    using srch by (simp add: finditer_stmt_step [of s p])
  show ?case
  proof (cases "m_start m = n")
    case True
    with a(2) ma have "m = m0" by simp
    with step show ?thesis by simp
  next
    case False
    with le have lt: "m_start m < n" by simp
    with clear a(2) have e: "m_end m \<le> n" by blast
    from a(1) b lt have "n - m_end m < n - p" by arith
    from less.hyps [OF this e] step show ?thesis by simp
  qed
qed

lemma name_group_is_identifier:
  assumes "re_search FN_NAME_RE stmt 0 = Some nm"
  shows "\<exists>g. group_fname stmt nm = Some g \<and> g \<noteq> [] \<and> list_all is_fname_chr g"
proof -
  from re_search_Some [OF assms] have "match_at FN_NAME_RE stmt (m_start nm) = Some nm" by simp
  from match_at_in [OF this] have in_set: "(m_end nm, m_fname nm) \<in> set (FN_NAME_RE stmt (m_start nm, None))" .
  from fn_name_re_group [OF this] obtain a b where ab: "m_fname nm = Some (a, b)" by blast
  from fn_name_group_chars [OF in_set [unfolded ab]]
  have c: "a < b" "b \<le> length stmt" "list_all is_fname_chr (slice stmt a b)" by simp_all
  from c(1,2) have "slice stmt a b \<noteq> []" by (simp add: slice_def)
  with ab c(3) show ?thesis by (simp add: group_fname_def)
qed

subsection \<open>The scanning loop\<close>

lemma stmt_fm_no_error: "stmt_fm src m \<noteq> Inl e"
proof -
  have "group_fname (group0 src m) nm \<noteq> None"
    if "re_search FN_NAME_RE (group0 src m) 0 = Some nm" for nm
  proof -
    from re_search_Some [OF that] have "match_at FN_NAME_RE (group0 src m) (m_start nm) = Some nm"
      by simp
    from fn_name_re_group [OF match_at_in [OF this]] show ?thesis
      by (auto simp: group_fname_def)
  qed
  then show ?thesis
    by (auto simp: stmt_fm_def Let_def split: option.splits)
qed

lemma stmt_fm_cases:
  obtains (skip) "stmt_fm src m = Inr None" "\<not> is_flagged src m"
  | (flag) fm where "stmt_fm src m = Inr (Some fm)" "is_flagged src m" "fm_of src m = fm"
proof (cases "stmt_fm src m")
  case (Inl e)
  with stmt_fm_no_error show ?thesis by blast
next
  case (Inr x)
  then show ?thesis
    by (cases x) (auto simp: is_flagged_def fm_of_def intro: skip flag)
qed

lemma scan_loop_eq:
  "scan_loop u src b ms fs =
     Inr (fs @ map (\<lambda>m. make_finding u src b m (fm_of src m)) (filter (is_flagged src) ms))"
proof (induction ms arbitrary: fs)
  case Nil
  then show ?case by simp
next
  case (Cons m ms)
  show ?case
  proof (cases rule: stmt_fm_cases [of src m])
    case skip
    then show ?thesis by (simp add: scan_stmt_def Cons.IH)
  next
    case (flag fm)
    then show ?thesis by (simp add: scan_stmt_def Cons.IH)
  qed
qed

lemma scan_unit_eq:
  "scan_unit u = Inr (u\<lparr>findings := Some (map (\<lambda>m. make_finding u (src_of u) (base_start_of u) m (fm_of (src_of u) m))
      (flagged (src_of u)))\<rparr>)"
  by (simp add: scan_unit_def Let_def scan_loop_eq flagged_def)

lemma findings_of_scan_unit:
  "findings_of (scan_unit u) =
     map (\<lambda>m. make_finding u (src_of u) (base_start_of u) m (fm_of (src_of u) m)) (flagged (src_of u))"
  by (simp add: scan_unit_eq findings_of_def)

lemma scan_unit_Inr: "\<exists>r. scan_unit u = Inr r \<and> findings r = Some (findings_of (scan_unit u))"
  by (simp add: scan_unit_eq findings_of_def)

lemma has_findings_scan:
  "scan_unit u = Inr r \<Longrightarrow> has_findings r \<longleftrightarrow> findings_of (scan_unit u) \<noteq> []"
  using scan_unit_Inr [of u] by (auto simp: has_findings_def)

lemma scan_rule_array_loop_eq:
  "\<exists>rs. scan_rule_array_loop us acc = Inr (acc @ rs) \<and>
     map Inr rs = map scan_unit (filter (\<lambda>u. findings_of (scan_unit u) \<noteq> []) us)"
proof (induction us arbitrary: acc)
  case Nil
  then show ?case by simp
next
  case (Cons u us)
  from scan_unit_Inr [of u] obtain r where r: "scan_unit u = Inr r" by blast
  show ?case
  proof (cases "findings_of (scan_unit u) = []")
    case True
    with r have "\<not> has_findings r" by (simp add: has_findings_scan)
    with Cons.IH [of acc] r True show ?thesis by simp
  next
    case False
    with r have h: "has_findings r" by (simp add: has_findings_scan)
    from Cons.IH [of "acc @ [r]"] obtain rs where
      rs: "scan_rule_array_loop us (acc @ [r]) = Inr ((acc @ [r]) @ rs)"
        "map Inr rs = map scan_unit (filter (\<lambda>u. findings_of (scan_unit u) \<noteq> []) us)"
      by blast
    have "scan_rule_array_loop (u # us) acc = Inr (acc @ (r # rs))"
      using r h rs(1) by simp
    moreover have "map Inr (r # rs) = map scan_unit (filter (\<lambda>u. findings_of (scan_unit u) \<noteq> []) (u # us))"
      using r rs(2) False by simp
    ultimately show ?thesis by blast
  qed
qed

lemma make_finding_message:
  "message (make_finding u src b m fm) =
     Some (''Obsolete function module '' @ [SQ] @ fm @ [SQ] @ '' detected (non-Unicode).'')"
  by (simp add: make_finding_def Let_def)

lemma flagged_in_finditer: "m \<in> set (flagged src) \<Longrightarrow> m \<in> set (finditer STMT_RE src 0)"
  by (simp add: flagged_def)

lemma flagged_bounds:
  assumes "k < length (flagged src)"
  shows "m_start (flagged src ! k) \<le> m_end (flagged src ! k) \<and> m_end (flagged src ! k) \<le> length src"
proof -
  from assms have "flagged src ! k \<in> set (finditer STMT_RE src 0)"
    by (intro flagged_in_finditer nth_mem)
  from finditer_stmt_in [OF this] show ?thesis by simp
qed

lemma flagged_is_flagged: "k < length (flagged src) \<Longrightarrow> is_flagged src (flagged src ! k)"
  using nth_mem [of k "flagged src"] by (simp add: flagged_def)

lemma flagged_Nil_iff: "flagged src = [] \<longleftrightarrow> (\<forall>m \<in> set (finditer STMT_RE src 0). \<not> is_flagged src m)"
  by (auto simp: flagged_def filter_empty_conv)

lemma flagged_starts_distinct:
  assumes "j < length (flagged src)" and "k < length (flagged src)"
    and "m_start (flagged src ! j) = m_start (flagged src ! k)"
  shows "j = k"
proof -
  have "sorted_wrt (\<lambda>a b. m_start a < m_start b) (flagged src)"
    unfolding flagged_def by (intro sorted_wrt_filter finditer_stmt_starts_sorted)
  then have "\<forall>a b. a < b \<and> b < length (flagged src) \<longrightarrow>
      m_start (flagged src ! a) < m_start (flagged src ! b)"
    by (auto simp: sorted_wrt_iff_nth_less)
  with assms show ?thesis by (metis linorder_neqE_nat less_irrefl)
qed

lemma is_flagged_name:
  assumes "is_flagged src m"
  shows "\<exists>nm g. re_search FN_NAME_RE (group0 src m) 0 = Some nm \<and>
           group_fname (group0 src m) nm = Some g \<and> fm_of src m = upper g \<and>
           fm_of src m \<in> OBSOLETE_FMS"
proof (cases rule: stmt_fm_cases [of src m])
  case skip
  with assms show ?thesis by simp
next
  case (flag fm)
  then show ?thesis
    by (auto simp: stmt_fm_def Let_def split: option.splits if_splits)
qed

subsection \<open>The first state a pattern reaches\<close>

lemma rx_first_seq:
  assumes "rx_first r1 s x = Some m" and "rx_first r2 s m = Some y"
  shows "rx_first (rx_seq r1 r2) s x = Some y"
proof -
  from assms(1) obtain ms where 1: "r1 s x = m # ms"
    by (auto simp: rx_first_def split: list.splits)
  from assms(2) obtain ys where 2: "r2 s m = y # ys"
    by (auto simp: rx_first_def split: list.splits)
  from 1 2 show ?thesis by (simp add: rx_first_def rx_seq_def)
qed

lemma rx_first_cat_Cons:
  assumes "rx_first r s x = Some m" and "rx_first (rx_cat rs) s m = Some y"
  shows "rx_first (rx_cat (r # rs)) s x = Some y"
  unfolding rx_cat_Cons using assms by (rule rx_first_seq)

lemma rx_first_cat_Nil: "rx_first (rx_cat []) s x = Some x"
  by (simp add: rx_cat_Nil rx_first_def rx_eps_def)

lemma rx_first_chr:
  "i < length s \<Longrightarrow> P (s ! i) \<Longrightarrow> rx_first (rx_chr P) s (i, g) = Some (Suc i, g)"
  by (simp add: rx_first_def rx_chr_def)

lemma rx_first_wordb:
  "(0 < i \<and> i \<le> length s \<and> is_word (s ! (i - 1))) \<noteq> (i < length s \<and> is_word (s ! i))
     \<Longrightarrow> rx_first rx_wordb s (i, g) = Some (i, g)"
  by (simp add: rx_first_def rx_wordb_def)

lemma rx_first_star: "rx_first (rx_star P) s (i, g) = Some (i + run_len P s i, g)"
  by (simp add: rx_first_def rx_star_def)

lemma rx_first_plus:
  "0 < run_len P s i \<Longrightarrow> rx_first (rx_plus P) s (i, g) = Some (i + run_len P s i, g)"
  by (cases "run_len P s i") (simp_all add: rx_first_def rx_plus_def upt_rec [of 1])

lemma rx_first_group:
  "rx_first r s (i, g) = Some (j, g') \<Longrightarrow> rx_first (rx_group r) s (i, g) = Some (j, Some (i, j))"
  by (auto simp: rx_first_def rx_group_def split: list.splits)

lemma rx_first_quote_opt:
  "rx_first rx_quote_opt s (i, g) =
     Some (if i < length s \<and> (s ! i = SQ \<or> s ! i = DQ) then Suc i else i, g)"
  by (simp add: rx_first_def rx_quote_opt_def rx_alt_def rx_chr_def rx_eps_def)

lemma run_len_app:
  assumes "s = a @ w @ b" and "list_all P w" and "b = [] \<or> \<not> P (hd b)"
  shows "run_len P s (length a) = length w"
proof -
  from assms(2) have w: "takeWhile P w = w" by (simp add: list_all_iff)
  have "takeWhile P (w @ b) = w"
  proof (cases b)
    case Nil
    with w show ?thesis by simp
  next
    case (Cons c cs)
    with assms(3) have "\<not> P c" by simp
    with Cons assms(2) show ?thesis by (simp add: takeWhile_append2 list_all_iff)
  qed
  with assms(1) show ?thesis by (simp add: run_len_def)
qed

lemma rx_first_lit_i:
  assumes "s = a @ w @ b" and "upper w = upper lit"
  shows "rx_first (rx_lit_i lit) s (length a, g) = Some (length a + length w, g)"
  using assms
proof (induction lit arbitrary: a w)
  case Nil
  then show ?case by (simp add: upper_def rx_first_def rx_eps_def)
next
  case (Cons c cs)
  from Cons.prems(2) obtain x xs where w: "w = x # xs" and x: "upper_chr x = upper_chr c"
    and xs: "upper xs = upper cs"
    by (cases w) (auto simp: upper_def)
  from Cons.prems(1) w have s: "s = (a @ [x]) @ xs @ b" by simp
  from Cons.IH [OF s xs] have ih: "rx_first (rx_lit_i cs) s (Suc (length a), g) = Some (Suc (length a) + length xs, g)"
    by simp
  from Cons.prems(1) w have "length a < length s" "s ! length a = x" by simp_all
  with x have "rx_first (rx_chr (ci_eq c)) s (length a, g) = Some (Suc (length a), g)"
    by (simp add: rx_first_chr ci_eq_def)
  from rx_first_seq [OF this ih] w show ?case by simp
qed

subsection \<open>The patterns on a call statement\<close>

lemma obsolete_chars: "x \<in> OBSOLETE_FMS \<Longrightarrow> x \<noteq> [] \<and> list_all is_fname_chr x"
proof -
  have "list_all is_fname_chr ''WS_UPLOAD''" "list_all is_fname_chr ''WS_DOWNLOAD''"
    "list_all is_fname_chr ''UPLOAD''" "list_all is_fname_chr ''DOWNLOAD''"
    by code_simp+
  then show "x \<in> OBSOLETE_FMS \<Longrightarrow> x \<noteq> [] \<and> list_all is_fname_chr x"
    by (auto simp: OBSOLETE_FMS_def)
qed

lemma obsolete_name_chars:
  assumes "upper nm \<in> OBSOLETE_FMS"
  shows "nm \<noteq> [] \<and> list_all is_fname_chr nm"
proof -
  from obsolete_chars [OF assms] have "upper nm \<noteq> []" "list_all is_fname_chr (upper nm)" by simp_all
  then show ?thesis
    by (auto simp: upper_def list_all_iff intro: is_fname_chr_upper)
qed

lemma upper_CALL_parts:
  assumes "upper kw = ''CALL''"
  shows "kw \<noteq> [] \<and> is_word (hd kw) \<and> upper kw = upper ''CALL'' \<and> length kw = 4"
proof -
  from assms obtain c cs where kw: "kw = c # cs" and c: "upper_chr c = CHR ''C''"
    by (cases kw) (auto simp: upper_def)
  from c have "is_word c" using is_word_upper [of c] fname_chr_facts(7) by simp
  with kw assms upper_CALL upper_length [of kw "''CALL''"] show ?thesis by simp
qed

lemma upper_FUNCTION_parts:
  assumes "upper kw = ''FUNCTION''"
  shows "kw \<noteq> [] \<and> \<not> is_space (hd kw) \<and> is_word (last kw) \<and> upper kw = upper ''FUNCTION'' \<and> length kw = 8"
proof -
  from assms obtain c cs where kw: "kw = c # cs" and c: "upper_chr c = CHR ''F''"
    by (cases kw) (auto simp: upper_def)
  from c have f: "\<not> is_space c" using is_space_upper [of c] fname_chr_facts(9) by auto
  from kw have "kw \<noteq> []" by simp
  then have "last (upper kw) = upper_chr (last kw)"
    unfolding upper_def by (rule last_map)
  with assms have "upper_chr (last kw) = CHR ''N''" by simp
  then have "is_word (last kw)" using is_word_upper [of "last kw"] fname_chr_facts(8) by simp
  with kw f assms upper_FUNCTION upper_length [of kw "''FUNCTION''"] show ?thesis by simp
qed

lemma keywords_first:
  assumes s: "s = pre @ kw1 @ ws1 @ kw2 @ rest"
    and pre: "pre = [] \<or> \<not> is_word (last pre)"
    and kw1: "upper kw1 = ''CALL''" and ws1: "ws1 \<noteq> []" "list_all is_space ws1"
    and kw2: "upper kw2 = ''FUNCTION''"
    and rest: "rx_first (rx_cat rs) s (length (pre @ kw1 @ ws1 @ kw2), g) = Some y"
  shows "rx_first (rx_cat (rx_wordb # rx_lit_i ''CALL'' # rx_plus is_space # rx_lit_i ''FUNCTION'' # rs))
           s (length pre, g) = Some y"
proof -
  note k1 = upper_CALL_parts [OF kw1] and k2 = upper_FUNCTION_parts [OF kw2]
  from k1 obtain c cs where c: "kw1 = c # cs" "is_word c" by (cases kw1) auto
  have b: "(0 < length pre \<and> length pre \<le> length s \<and> is_word (s ! (length pre - 1)))
      \<noteq> (length pre < length s \<and> is_word (s ! length pre))"
  proof -
    from s c have "length pre < length s" "s ! length pre = c" by simp_all
    moreover have "\<not> (0 < length pre \<and> is_word (s ! (length pre - 1)))"
    proof (cases pre rule: rev_cases)
      case Nil
      then show ?thesis by simp
    next
      case (snoc xs x)
      with pre have "\<not> is_word x" by simp
      moreover from s snoc have "s ! (length pre - 1) = x" by (simp add: nth_append)
      ultimately show ?thesis by simp
    qed
    ultimately show ?thesis using c(2) by auto
  qed
  have 1: "rx_first rx_wordb s (length pre, g) = Some (length pre, g)"
    using b by (rule rx_first_wordb)
  have 2: "rx_first (rx_lit_i ''CALL'') s (length pre, g) = Some (length pre + length kw1, g)"
    using s k1 by (intro rx_first_lit_i [of s pre kw1 "ws1 @ kw2 @ rest"]) simp_all
  have "run_len is_space s (length (pre @ kw1)) = length ws1"
    using s ws1(2) k2 by (intro run_len_app [of s "pre @ kw1" ws1 "kw2 @ rest"]) auto
  then have r: "run_len is_space s (length pre + length kw1) = length ws1" by simp
  have 3: "rx_first (rx_plus is_space) s (length pre + length kw1, g)
      = Some (length pre + length kw1 + length ws1, g)"
    using rx_first_plus [of is_space s "length pre + length kw1" g] r ws1(1) by simp
  have "rx_first (rx_lit_i ''FUNCTION'') s (length (pre @ kw1 @ ws1), g)
      = Some (length (pre @ kw1 @ ws1) + length kw2, g)"
    using s k2 by (intro rx_first_lit_i [of s "pre @ kw1 @ ws1" kw2 rest]) simp_all
  then have 4: "rx_first (rx_lit_i ''FUNCTION'') s (length pre + length kw1 + length ws1, g)
      = Some (length pre + length kw1 + length ws1 + length kw2, g)"
    by (simp add: add.assoc)
  from rest have 5: "rx_first (rx_cat rs) s (length pre + length kw1 + length ws1 + length kw2, g) = Some y"
    by (simp add: add.assoc)
  show ?thesis
    by (rule rx_first_cat_Cons [OF 1] rx_first_cat_Cons [OF 2] rx_first_cat_Cons [OF 3]
        rx_first_cat_Cons [OF 4] 5)+
qed

lemma is_quote_chars: "is_quote q \<Longrightarrow> list_all (\<lambda>c. c \<noteq> DOT \<and> \<not> is_space c \<and> \<not> is_fname_chr c) q"
  using fname_chr_facts by (auto simp: is_quote_def)

lemma call_shape_no_dot:
  assumes "call_shape kw1 ws1 kw2 ws2 q1 nm q2 body"
  shows "list_all (\<lambda>c. c \<noteq> DOT) (ws2 @ q1 @ nm @ q2 @ body)"
proof -
  from assms have "list_all is_space ws2" "is_quote q1" "is_quote q2" "list_all is_fname_chr nm"
    "DOT \<notin> set body"
    by (simp_all add: call_shape_def)
  with is_quote_chars [of q1] is_quote_chars [of q2] fname_chr_facts(1,6) show ?thesis
    by (auto simp: list_all_iff)
qed

lemma stmt_match_in_context:
  assumes sh: "call_shape kw1 ws1 kw2 ws2 q1 nm q2 body"
    and s: "s = pre @ call_stmt kw1 ws1 kw2 ws2 q1 nm q2 body @ post"
    and pre: "pre = [] \<or> \<not> is_word (last pre)"
  shows "match_at STMT_RE s (length pre) =
    Some \<lparr>m_start = length pre,
          m_end = length pre + length (call_stmt kw1 ws1 kw2 ws2 q1 nm q2 body), m_fname = None\<rparr>"
proof -
  define w where "w = ws2 @ q1 @ nm @ q2 @ body"
  define a where "a = pre @ kw1 @ ws1 @ kw2"
  from sh have kw1: "upper kw1 = ''CALL''" and ws1: "ws1 \<noteq> []" "list_all is_space ws1"
    and kw2: "upper kw2 = ''FUNCTION''" and ws2: "ws2 \<noteq> []" "list_all is_space ws2"
    by (simp_all add: call_shape_def)
  have sa: "s = a @ w @ DOT # post"
    by (simp add: s a_def w_def call_stmt_def)
  from ws2 obtain x xs where x: "ws2 = x # xs" "is_space x" by (cases ws2) auto
  note k2 = upper_FUNCTION_parts [OF kw2]
  have prev: "s ! (length a - 1) = last kw2"
  proof -
    from k2 have "a = (pre @ kw1 @ ws1 @ butlast kw2) @ [last kw2]" by (simp add: a_def)
    then have "s = (pre @ kw1 @ ws1 @ butlast kw2) @ last kw2 # w @ DOT # post"
      and "length a - 1 = length (pre @ kw1 @ ws1 @ butlast kw2)"
      using sa by simp_all
    then show ?thesis by (metis nth_append_length)
  qed
  have "s ! length a = x" using sa x by (simp add: w_def)
  with x(2) have nxt: "\<not> is_word (s ! length a)" by (simp add: is_space_not_word)
  from k2 have apos: "0 < length a" by (simp add: a_def)
  from sa have alt: "length a \<le> length s" by simp
  have 5: "rx_first rx_wordb s (length a, None) = Some (length a, None)"
    using prev nxt k2 apos alt by (intro rx_first_wordb) simp
  have "run_len (\<lambda>c. c \<noteq> DOT) s (length a) = length w"
    using sa call_shape_no_dot [OF sh] by (intro run_len_app [of s a w "DOT # post"]) (simp_all add: w_def)
  then have 6: "rx_first (rx_star (\<lambda>c. c \<noteq> DOT)) s (length a, None) = Some (length a + length w, None)"
    by (simp add: rx_first_star)
  have "length a + length w < length s" "s ! (length a + length w) = DOT"
    using sa by (simp_all add: nth_append)
  then have 7: "rx_first (rx_chr (\<lambda>c. c = DOT)) s (length a + length w, None)
      = Some (Suc (length a + length w), None)"
    by (simp add: rx_first_chr)
  have rest: "rx_first (rx_cat [rx_wordb, rx_star (\<lambda>c. c \<noteq> DOT), rx_chr (\<lambda>c. c = DOT)]) s
      (length (pre @ kw1 @ ws1 @ kw2), None) = Some (Suc (length a + length w), None)"
    unfolding a_def [symmetric]
    by (rule rx_first_cat_Cons [OF 5] rx_first_cat_Cons [OF 6] rx_first_cat_Cons [OF 7]
        rx_first_cat_Nil)+
  have sk: "s = pre @ kw1 @ ws1 @ kw2 @ (w @ DOT # post)"
    using sa by (simp add: a_def)
  have "rx_first STMT_RE s (length pre, None) = Some (Suc (length a + length w), None)"
    unfolding STMT_RE_def by (rule keywords_first [OF sk pre kw1 ws1 kw2 rest])
  moreover have "Suc (length a + length w) = length pre + length (call_stmt kw1 ws1 kw2 ws2 q1 nm q2 body)"
    by (simp add: a_def w_def call_stmt_def)
  ultimately show ?thesis by (simp add: match_at_def)
qed

lemma name_match_in_stmt:
  assumes sh: "call_shape kw1 ws1 kw2 ws2 q1 nm q2 body"
    and s: "s = call_stmt kw1 ws1 kw2 ws2 q1 nm q2 body"
  shows "\<exists>m. re_search FN_NAME_RE s 0 = Some m \<and> group_fname s m = Some nm"
proof -
  define a where "a = kw1 @ ws1 @ kw2"
  define t where "t = q2 @ body @ [DOT]"
  from sh have kw1: "upper kw1 = ''CALL''" and ws1: "ws1 \<noteq> []" "list_all is_space ws1"
    and kw2: "upper kw2 = ''FUNCTION''" and ws2: "ws2 \<noteq> []" "list_all is_space ws2"
    and q1: "is_quote q1" and q2: "is_quote q2" and nm: "nm \<noteq> []" "list_all is_fname_chr nm"
    and tail: "if q2 = [] then (case body of [] \<Rightarrow> True | c # _ \<Rightarrow> \<not> is_fname_chr c) else True"
    by (simp_all add: call_shape_def)
  have sa: "s = a @ ws2 @ q1 @ nm @ t"
    by (simp add: s a_def t_def call_stmt_def)
  from nm obtain n ns where n: "nm = n # ns" "is_fname_chr n" by (cases nm) auto
  have t: "t \<noteq> [] \<and> \<not> is_fname_chr (hd t)"
  proof (cases "q2 = []")
    case True
    with tail fname_chr_facts(1) show ?thesis by (cases body) (simp_all add: t_def)
  next
    case False
    with q2 fname_chr_facts(2,3) show ?thesis by (auto simp: t_def is_quote_def)
  qed
  have hq: "\<not> is_space (hd (q1 @ nm @ t))"
    using q1 n fname_chr_facts(4,5) is_fname_chr_not_space [of n] by (auto simp: is_quote_def)
  have "run_len is_space s (length a) = length ws2"
    using sa ws2(2) hq by (intro run_len_app [of s a ws2 "q1 @ nm @ t"]) (simp_all add: n)
  then have 5: "rx_first (rx_plus is_space) s (length a, None) = Some (length a + length ws2, None)"
    using rx_first_plus [of is_space s "length a" None] ws2(1) by simp
  define p where "p = length a + length ws2"
  have at_p: "p < length s" "s ! p = hd (q1 @ nm @ t)"
  proof -
    from n have ne: "q1 @ nm @ t \<noteq> []" by simp
    from sa have "s = (a @ ws2) @ (q1 @ nm @ t)" by simp
    then have "s ! p = (q1 @ nm @ t) ! 0" unfolding p_def
      by (metis length_append nth_append_length_plus add.right_neutral)
    with ne show "s ! p = hd (q1 @ nm @ t)" by (simp add: hd_conv_nth)
    from sa n show "p < length s" by (simp add: p_def)
  qed
  have 6: "rx_first rx_quote_opt s (p, None) = Some (p + length q1, None)"
  proof (cases "q1 = []")
    case True
    with at_p n have "s ! p = n" by simp
    with n(2) fname_chr_facts(2,3) have "s ! p \<noteq> SQ \<and> s ! p \<noteq> DQ" by auto
    with True show ?thesis by (simp add: rx_first_quote_opt)
  next
    case False
    with q1 at_p have "s ! p = SQ \<or> s ! p = DQ" "length q1 = 1" by (auto simp: is_quote_def)
    with at_p(1) show ?thesis by (simp add: rx_first_quote_opt)
  qed
  have sq: "s = (a @ ws2 @ q1) @ [] @ nm @ t" "s = (a @ ws2 @ q1) @ nm @ t"
    using sa by simp_all
  have lq: "length (a @ ws2 @ q1) = p + length q1" by (simp add: p_def)
  have "run_len is_space s (length (a @ ws2 @ q1)) = length ([] :: string)"
    using n is_fname_chr_not_space [of n]
    by (intro run_len_app [OF sq(1)]) simp_all
  then have 7: "rx_first (rx_star is_space) s (p + length q1, None) = Some (p + length q1, None)"
    unfolding lq by (simp add: rx_first_star)
  have "run_len is_fname_chr s (length (a @ ws2 @ q1)) = length nm"
    using nm(2) t by (intro run_len_app [OF sq(2)]) simp_all
  then have r8: "run_len is_fname_chr s (p + length q1) = length nm" unfolding lq .
  with nm(1) have "rx_first (rx_plus is_fname_chr) s (p + length q1, None)
      = Some (p + length q1 + length nm, None)"
    using rx_first_plus [of is_fname_chr s "p + length q1" None] by simp
  from rx_first_group [OF this]
  have 8: "rx_first (rx_group (rx_plus is_fname_chr)) s (p + length q1, None)
      = Some (p + length q1 + length nm, Some (p + length q1, p + length q1 + length nm))" .
  define g where "g = Some (p + length q1, p + length q1 + length nm)"
  from 5 have f5: "rx_first (rx_plus is_space) s (length a, None) = Some (p, None)"
    by (simp add: p_def)
  from 8 have f8: "rx_first (rx_group (rx_plus is_fname_chr)) s (p + length q1, None)
      = Some (p + length q1 + length nm, g)"
    by (simp add: g_def)
  obtain j where 9: "rx_first (rx_star is_space) s (p + length q1 + length nm, g) = Some (j, g)"
    by (simp add: rx_first_star)
  obtain e where 10: "rx_first rx_quote_opt s (j, g) = Some (e, g)"
    by (simp add: rx_first_quote_opt)
  have rest: "rx_first (rx_cat [rx_plus is_space, rx_quote_opt, rx_star is_space,
      rx_group (rx_plus is_fname_chr), rx_star is_space, rx_quote_opt]) s
      (length ([] @ kw1 @ ws1 @ kw2), None) = Some (e, g)"
    unfolding append_Nil a_def [symmetric]
    by (rule rx_first_cat_Cons [OF f5] rx_first_cat_Cons [OF 6] rx_first_cat_Cons [OF 7]
        rx_first_cat_Cons [OF f8] rx_first_cat_Cons [OF 9] rx_first_cat_Cons [OF 10]
        rx_first_cat_Nil)+
  have sk: "s = [] @ kw1 @ ws1 @ kw2 @ (ws2 @ q1 @ nm @ t)"
    using sa by (simp add: a_def)
  have "rx_first FN_NAME_RE s (length ([] :: string), None) = Some (e, g)"
    unfolding FN_NAME_RE_def by (rule keywords_first [OF sk _ kw1 ws1 kw2 rest]) simp
  then have m: "match_at FN_NAME_RE s 0 = Some \<lparr>m_start = 0, m_end = e, m_fname = g\<rparr>"
    by (simp add: match_at_def)
  have "[0..<Suc (length s)] = 0 # [Suc 0..<Suc (length s)]"
    by (rule upt_conv_Cons) simp
  then have "List.find (\<lambda>i. match_at FN_NAME_RE s i \<noteq> None) [0..<Suc (length s)] = Some 0"
    using m by simp
  with m have srch: "re_search FN_NAME_RE s 0 = Some \<lparr>m_start = 0, m_end = e, m_fname = g\<rparr>"
    by (simp add: re_search_def)
  have "slice s (p + length q1) (p + length q1 + length nm) = nm"
    unfolding lq [symmetric] sq(2) slice_def by simp
  then have "group_fname s \<lparr>m_start = 0, m_end = e, m_fname = g\<rparr> = Some nm"
    by (simp add: group_fname_def g_def)
  with srch show ?thesis by blast
qed

lemma stmt_fm_in_context:
  assumes sh: "call_shape kw1 ws1 kw2 ws2 q1 nm q2 body"
    and s: "s = pre @ call_stmt kw1 ws1 kw2 ws2 q1 nm q2 body @ post"
  shows "stmt_fm s \<lparr>m_start = length pre,
      m_end = length pre + length (call_stmt kw1 ws1 kw2 ws2 q1 nm q2 body), m_fname = None\<rparr>
    = Inr (if upper nm \<in> OBSOLETE_FMS then Some (upper nm) else None)"
proof -
  define stmt where "stmt = call_stmt kw1 ws1 kw2 ws2 q1 nm q2 body"
  have g0: "group0 s \<lparr>m_start = length pre, m_end = length pre + length stmt, m_fname = None\<rparr> = stmt"
    by (simp add: group0_def slice_def s stmt_def)
  from name_match_in_stmt [OF sh stmt_def] obtain m where
    "re_search FN_NAME_RE stmt 0 = Some m" "group_fname stmt m = Some nm" by blast
  then show ?thesis
    unfolding stmt_def [symmetric] by (simp add: stmt_fm_def g0 Let_def)
qed

lemma call_found_in_context:
  fixes u :: Unit
  defines "src \<equiv> src_of u" and "fs \<equiv> findings_of (scan_unit u)"
  assumes sh: "call_shape kw1 ws1 kw2 ws2 q1 nm q2 body"
    and ob: "upper nm \<in> OBSOLETE_FMS"
    and s: "src_of u = pre @ call_stmt kw1 ws1 kw2 ws2 q1 nm q2 body @ post"
    and pre: "pre = [] \<or> \<not> is_word (last pre)"
    and clear: "\<forall>i<length pre. \<forall>m. match_at STMT_RE (src_of u) i = Some m \<longrightarrow> m_end m \<le> length pre"
  shows "\<exists>k. k < length fs \<and>
      flagged src ! k = \<lparr>m_start = length pre,
         m_end = length pre + length (call_stmt kw1 ws1 kw2 ws2 q1 nm q2 body), m_fname = None\<rparr> \<and>
      fs ! k = make_finding u src (base_start_of u) (flagged src ! k) (upper nm) \<and>
      (\<forall>j<length fs. m_start (flagged src ! j) = length pre \<longrightarrow> j = k)"
proof -
  define m0 where "m0 = \<lparr>m_start = length pre,
      m_end = length pre + length (call_stmt kw1 ws1 kw2 ws2 q1 nm q2 body), m_fname = None\<rparr>"
  have fs: "fs = map (\<lambda>m. make_finding u src (base_start_of u) m (fm_of src m)) (flagged src)"
    by (simp add: fs_def src_def findings_of_scan_unit)
  have ma: "match_at STMT_RE src (length pre) = Some m0"
    unfolding m0_def src_def by (rule stmt_match_in_context [OF sh s pre])
  have "length pre \<le> length src" by (simp add: src_def s)
  moreover from clear have "\<forall>i<length pre. \<forall>m. match_at STMT_RE src i = Some m \<longrightarrow> m_end m \<le> length pre"
    unfolding src_def .
  ultimately have fi: "m0 \<in> set (finditer STMT_RE src 0)"
    by (intro finditer_reaches [OF ma]) simp_all
  have sf: "stmt_fm src m0 = Inr (Some (upper nm))"
    unfolding m0_def src_def using stmt_fm_in_context [OF sh s] ob by simp
  then have "is_flagged src m0" "fm_of src m0 = upper nm"
    by (simp_all add: is_flagged_def fm_of_def)
  with fi have "m0 \<in> set (flagged src)" by (simp add: flagged_def)
  then obtain k where k: "k < length (flagged src)" "flagged src ! k = m0"
    by (auto simp: in_set_conv_nth)
  have one: "fs ! k = make_finding u src (base_start_of u) (flagged src ! k) (upper nm)"
    using k \<open>fm_of src m0 = upper nm\<close> by (simp add: fs)
  have uniq: "\<forall>j<length fs. m_start (flagged src ! j) = length pre \<longrightarrow> j = k"
  proof (intro allI impI)
    fix j assume "j < length fs" "m_start (flagged src ! j) = length pre"
    with k have "j < length (flagged src)" "m_start (flagged src ! j) = m_start (flagged src ! k)"
      by (simp_all add: fs m0_def)
    from flagged_starts_distinct [OF this(1) k(1) this(2)] show "j = k" .
  qed
  have len: "k < length fs" using k(1) by (simp add: fs)
  from len k(2) one uniq show ?thesis
    unfolding m0_def by blast
qed

subsection \<open>The example units\<close>

lemma scenario_flagged: "flagged scenario_code = [\<lparr>m_start = 0, m_end = 44, m_fname = None\<rparr>]"
  by code_simp

lemma scenario_fm: "fm_of scenario_code \<lparr>m_start = 0, m_end = 44, m_fname = None\<rparr> = ''WS_UPLOAD''"
  by code_simp

lemma scenario_lines:
  "count_nl (slice scenario_code 0 0) = 0"
  "get_line_snippet scenario_code 0 44 = scenario_code"
  "count_nl scenario_code = 1"
  "contains ''UPLOAD'' ''WS_UPLOAD''"
  "contains ''WS_UPLOAD'' (''Obsolete function module '' @ [SQ] @ ''WS_UPLOAD'' @ [SQ] @ '' detected (non-Unicode).'')"
  by code_simp+

lemma scenario_snippet:
  "snippet (findings_of (scan_unit scenario_unit) ! 0) =
     Some (''CALL FUNCTION '' @ [SQ] @ ''WS_UPLOAD'' @ [SQ, CHR 0x5C] @ ''n  EXPORTING x = y.'')"
  by code_simp

lemma lines_src: "src_of lines_unit = lines_code"
  by (simp add: src_of_def lines_unit_def)

lemma lines_base: "base_start_of lines_unit = 100" "start_line lines_unit = Some 100"
  by (simp_all add: base_start_of_def lines_unit_def)

lemma lines_flagged:
  "flagged lines_code = [\<lparr>m_start = 24, m_end = 47, m_fname = None\<rparr>,
     \<lparr>m_start = 48, m_end = 92, m_fname = None\<rparr>, \<lparr>m_start = 93, m_end = 116, m_fname = None\<rparr>]"
  by code_simp

lemma lines_fm:
  "fm_of lines_code \<lparr>m_start = 24, m_end = 47, m_fname = None\<rparr> = ''UPLOAD''"
  "fm_of lines_code \<lparr>m_start = 48, m_end = 92, m_fname = None\<rparr> = ''WS_DOWNLOAD''"
  "fm_of lines_code \<lparr>m_start = 93, m_end = 116, m_fname = None\<rparr> = ''DOWNLOAD''"
  by code_simp+

lemma lines_counts:
  "count_nl (take 24 lines_code) = 2"
  "count_nl (get_line_snippet lines_code 24 47) = 0"
  by code_simp+

lemma lines_length: "length (findings_of (scan_unit lines_unit)) = 3"
  by (simp add: findings_of_scan_unit lines_src lines_flagged)

lemma lines_parts:
  "src_of lines_unit = (''DATA t TYPE i.'' @ [NL] @ ''WRITE t.'' @ [NL]) @
     call_stmt ''CALL'' '' '' ''FUNCTION'' '' '' [SQ] ''UPLOAD'' [SQ] [] @
     ([NL] @ ''call function '' @ [DQ] @ ''ws_download'' @ [DQ] @ '' exporting a = b.'' @ [NL] @
      ''CALL FUNCTION DOWNLOAD.'')"
  "src_of lines_unit = (''DATA t TYPE i.'' @ [NL] @ ''WRITE t.'' @ [NL] @
      ''CALL FUNCTION '' @ [SQ] @ ''UPLOAD'' @ [SQ] @ ''.'' @ [NL]) @
     call_stmt ''call'' '' '' ''function'' '' '' [DQ] ''ws_download'' [DQ] '' exporting a = b'' @
     ([NL] @ ''CALL FUNCTION DOWNLOAD.'')"
  "src_of lines_unit = (''DATA t TYPE i.'' @ [NL] @ ''WRITE t.'' @ [NL] @
      ''CALL FUNCTION '' @ [SQ] @ ''UPLOAD'' @ [SQ] @ ''.'' @ [NL] @
      ''call function '' @ [DQ] @ ''ws_download'' @ [DQ] @ '' exporting a = b.'' @ [NL]) @
     call_stmt ''CALL'' '' '' ''FUNCTION'' '' '' [] ''DOWNLOAD'' [] [] @ []"
  by (simp_all add: lines_src lines_code_def call_stmt_def)

lemma lines_shapes:
  "call_shape ''CALL'' '' '' ''FUNCTION'' '' '' [SQ] ''UPLOAD'' [SQ] []"
  "call_shape ''call'' '' '' ''function'' '' '' [DQ] ''ws_download'' [DQ] '' exporting a = b''"
  "call_shape ''CALL'' '' '' ''FUNCTION'' '' '' [] ''DOWNLOAD'' [] []"
  "upper ''UPLOAD'' \<in> OBSOLETE_FMS" "upper ''ws_download'' \<in> OBSOLETE_FMS"
  "upper ''DOWNLOAD'' \<in> OBSOLETE_FMS"
  "upper ''UPLOAD'' = ''UPLOAD''" "upper ''ws_download'' = ''WS_DOWNLOAD''"
  "upper ''DOWNLOAD'' = ''DOWNLOAD''"
  by code_simp+

lemma lines_clear:
  "\<forall>i<24. \<forall>m. match_at STMT_RE (src_of lines_unit) i = Some m \<longrightarrow> m_end m \<le> 24"
  "\<forall>i<48. \<forall>m. match_at STMT_RE (src_of lines_unit) i = Some m \<longrightarrow> m_end m \<le> 48"
  "\<forall>i<93. \<forall>m. match_at STMT_RE (src_of lines_unit) i = Some m \<longrightarrow> m_end m \<le> 93"
proof -
  have "list_all (\<lambda>i. case match_at STMT_RE lines_code i of None \<Rightarrow> True | Some m \<Rightarrow> m_end m \<le> 24) [0..<24]"
    "list_all (\<lambda>i. case match_at STMT_RE lines_code i of None \<Rightarrow> True | Some m \<Rightarrow> m_end m \<le> 48) [0..<48]"
    "list_all (\<lambda>i. case match_at STMT_RE lines_code i of None \<Rightarrow> True | Some m \<Rightarrow> m_end m \<le> 93) [0..<93]"
    by code_simp+
  then show
    "\<forall>i<24. \<forall>m. match_at STMT_RE (src_of lines_unit) i = Some m \<longrightarrow> m_end m \<le> 24"
    "\<forall>i<48. \<forall>m. match_at STMT_RE (src_of lines_unit) i = Some m \<longrightarrow> m_end m \<le> 48"
    "\<forall>i<93. \<forall>m. match_at STMT_RE (src_of lines_unit) i = Some m \<longrightarrow> m_end m \<le> 93"
    unfolding lines_src list_all_iff by (auto split: option.splits)
qed

lemma suggestion_texts:
  "contains ''GUI_UPLOAD'' UPLOAD_SUGGESTION"
  "contains ''CL_GUI_FRONTEND_SERVICES=>GUI_UPLOAD'' UPLOAD_SUGGESTION"
  "contains ''GUI_DOWNLOAD'' DOWNLOAD_SUGGESTION"
  "contains ''UPLOAD'' ''WS_UPLOAD''" "contains ''UPLOAD'' ''UPLOAD''"
  "\<not> contains ''UPLOAD'' ''WS_DOWNLOAD''" "\<not> contains ''UPLOAD'' ''DOWNLOAD''"
  by code_simp+

lemma quiet_facts:
  "src_of empty_unit = []"
  "\<not> contains ''CALL'' (upper (src_of quiet_unit))"
  "finditer STMT_RE (src_of modern_unit) 0 = [\<lparr>m_start = 0, m_end = 27, m_fname = None\<rparr>]"
  "re_search FN_NAME_RE (group0 (src_of modern_unit) \<lparr>m_start = 0, m_end = 27, m_fname = None\<rparr>) 0
     = Some \<lparr>m_start = 0, m_end = 26, m_fname = Some (15, 25)\<rparr>"
  "group_fname (group0 (src_of modern_unit) \<lparr>m_start = 0, m_end = 27, m_fname = None\<rparr>)
     \<lparr>m_start = 0, m_end = 26, m_fname = Some (15, 25)\<rparr> = Some ''GUI_UPLOAD''"
  "upper ''GUI_UPLOAD'' \<notin> OBSOLETE_FMS"
  "DOT \<notin> set (src_of open_unit)"
  by code_simp+

lemma batch_facts:
  "filter (\<lambda>u. findings_of (scan_unit u) \<noteq> []) [quiet_unit, scenario_unit, modern_unit] = [scenario_unit]"
  by code_simp

lemma unclosed_lines:
  "flagged (src_of unclosed_unit) = [\<lparr>m_start = 0, m_end = 25, m_fname = None\<rparr>]"
  "count_nl (take 0 (src_of unclosed_unit)) = 0"
  "count_nl (get_line_snippet (src_of unclosed_unit) 0 25) = 0"
  "start_line unclosed_unit = Some 7"
  by code_simp+

lemma unpaired_facts:
  "call_shape ''CALL'' '' '' ''FUNCTION'' '' '' [SQ] ''WS_UPLOAD'' [] []"
  "call_shape ''call'' '' '' ''function'' '' '' [SQ] ''download'' [DQ] '' EXPORTING a = b''"
  "upper ''WS_UPLOAD'' \<in> OBSOLETE_FMS" "upper ''download'' \<in> OBSOLETE_FMS"
  "upper ''WS_UPLOAD'' = ''WS_UPLOAD''" "upper ''download'' = ''DOWNLOAD''"
  by code_simp+

section \<open>The two-line scenario\<close>

text \<open>
  C1 (as amended). For a unit whose code is the call of \<open>WS_UPLOAD\<close> followed by a line feed
  and \<open>EXPORTING x = y.\<close>, with \<open>start_line = 0\<close>, \<open>scan_unit\<close> returns exactly one
  finding; its message names \<open>WS_UPLOAD\<close>, its suggestion is the upload template, its
  \<open>starting_line\<close> is 1 and its \<open>ending_line\<close> is 3: the snippet holds both lines of the
  statement, so the line count added to the starting line is 2.
\<close>

theorem scenario_two_line_call:
  fixes u :: Unit
  defines "u' \<equiv> u\<lparr>start_line := Some 0, code := Some scenario_code\<rparr>"
  shows "\<exists>f. scan_unit u' = Inr (u'\<lparr>findings := Some [f]\<rparr>) \<and>
           message f = Some (''Obsolete function module '' @ [SQ] @ ''WS_UPLOAD'' @ [SQ] @ '' detected (non-Unicode).'') \<and>
           contains ''WS_UPLOAD'' (the (message f)) \<and>
           suggestion f = Some UPLOAD_SUGGESTION \<and>
           starting_line f = Some 1 \<and> ending_line f = Some 3"
proof -
  have src: "src_of u' = scenario_code" and base: "base_start_of u' = 0"
    by (simp_all add: u'_def src_of_def base_start_of_def)
  let ?f = "make_finding u' scenario_code 0 \<lparr>m_start = 0, m_end = 44, m_fname = None\<rparr> ''WS_UPLOAD''"
  have res: "scan_unit u' = Inr (u'\<lparr>findings := Some [?f]\<rparr>)"
    unfolding scan_unit_eq [of u'] src base scenario_flagged
    by (simp add: scenario_fm)
  have "message ?f = Some (''Obsolete function module '' @ [SQ] @ ''WS_UPLOAD'' @ [SQ] @ '' detected (non-Unicode).'')"
    "suggestion ?f = Some UPLOAD_SUGGESTION"
    "starting_line ?f = Some 1" "ending_line ?f = Some 3"
    by (simp_all add: make_finding_def Let_def scenario_lines)
  moreover from this(1) have "contains ''WS_UPLOAD'' (the (message ?f))"
    by (simp only: option.sel scenario_lines)
  ultimately show ?thesis using res by blast
qed

text \<open>
  C1 as stated asks for \<open>ending_line = 2\<close> in that scenario; the scan returns one finding
  whose \<open>ending_line\<close> is 3.
\<close>

theorem scenario_ending_line_is_not_2:
  "map ending_line (findings_of (scan_unit scenario_unit)) = [Some 3] \<and>
   map ending_line (findings_of (scan_unit scenario_unit)) \<noteq> [Some 2]"
  by code_simp

section \<open>Line numbers\<close>

text \<open>
  C2. The findings of a unit correspond one to one, in order, to the statement matches
  that are reported. For each of them \<open>starting_line\<close> is the unit's \<open>start_line\<close> (0 where
  the unit has none) plus the number of line feeds of the text before the start of the
  match plus 1, and \<open>ending_line\<close> is the unit's \<open>start_line\<close> plus that line number within
  the text plus the number of line feeds of the snippet line plus 1. With
  \<open>start_line = 100\<close> and two line feeds before the statement, \<open>starting_line\<close> is 103.
\<close>

theorem finding_line_numbers:
  fixes u :: Unit
  defines "src \<equiv> src_of u" and "fs \<equiv> findings_of (scan_unit u)"
  shows "length fs = length (flagged src) \<and>
    (\<forall>k<length fs.
       starting_line (fs ! k) =
         Some ((case start_line u of None \<Rightarrow> 0 | Some b \<Rightarrow> b)
           + (int (count_nl (take (m_start (flagged src ! k)) src)) + 1)) \<and>
       ending_line (fs ! k) =
         Some ((case start_line u of None \<Rightarrow> 0 | Some b \<Rightarrow> b)
           + (int (count_nl (take (m_start (flagged src ! k)) src)) + 1)
           + (int (count_nl (get_line_snippet src (m_start (flagged src ! k)) (m_end (flagged src ! k)))) + 1)) \<and>
       (\<forall>b. start_line u = Some b \<longrightarrow>
          starting_line (fs ! k) = Some (b + (int (count_nl (take (m_start (flagged src ! k)) src)) + 1))) \<and>
       (start_line u = Some 100 \<and> count_nl (take (m_start (flagged src ! k)) src) = 2
          \<longrightarrow> starting_line (fs ! k) = Some 103))"
proof -
  have fs: "fs = map (\<lambda>m. make_finding u src (base_start_of u) m (fm_of src m)) (flagged src)"
    by (simp add: fs_def src_def findings_of_scan_unit)
  have base: "base_start_of u = (case start_line u of None \<Rightarrow> 0 | Some b \<Rightarrow> b)"
    by (simp add: base_start_of_def)
  show ?thesis
    unfolding base [symmetric]
    by (auto simp: fs make_finding_def Let_def slice_def base_start_of_def)
qed

theorem finding_line_numbers_witness:
  "length (findings_of (scan_unit lines_unit)) = 3 \<and>
   start_line lines_unit = Some 100 \<and>
   count_nl (take (m_start (flagged (src_of lines_unit) ! 0)) (src_of lines_unit)) = 2 \<and>
   starting_line (findings_of (scan_unit lines_unit) ! 0) = Some 103 \<and>
   ending_line (findings_of (scan_unit lines_unit) ! 0) = Some 104 \<and>
   length (findings_of (scan_unit unclosed_unit)) = 1 \<and>
   start_line unclosed_unit = Some 7 \<and>
   starting_line (findings_of (scan_unit unclosed_unit) ! 0) = Some 8 \<and>
   ending_line (findings_of (scan_unit unclosed_unit) ! 0) = Some 9"
proof -
  have k: "0 < length (findings_of (scan_unit lines_unit))"
    by (simp add: lines_length)
  have c: "count_nl (take (m_start (flagged (src_of lines_unit) ! 0)) (src_of lines_unit)) = 2"
    by (simp add: lines_src lines_flagged lines_counts)
  from finding_line_numbers [of lines_unit] k
  have "ending_line (findings_of (scan_unit lines_unit) ! 0) =
         Some ((case start_line lines_unit of None \<Rightarrow> 0 | Some b \<Rightarrow> b)
           + (int (count_nl (take (m_start (flagged (src_of lines_unit) ! 0)) (src_of lines_unit))) + 1)
           + (int (count_nl (get_line_snippet (src_of lines_unit) (m_start (flagged (src_of lines_unit) ! 0))
                (m_end (flagged (src_of lines_unit) ! 0)))) + 1))"
    and "start_line lines_unit = Some 100 \<and>
         count_nl (take (m_start (flagged (src_of lines_unit) ! 0)) (src_of lines_unit)) = 2
          \<longrightarrow> starting_line (findings_of (scan_unit lines_unit) ! 0) = Some 103"
    by blast+
  with c have a: "starting_line (findings_of (scan_unit lines_unit) ! 0) = Some 103"
    "ending_line (findings_of (scan_unit lines_unit) ! 0) = Some 104"
    by (simp_all add: lines_base lines_src lines_flagged lines_counts)
  have l: "length (findings_of (scan_unit unclosed_unit)) = 1"
    by (simp add: findings_of_scan_unit unclosed_lines)
  then have k7: "0 < length (findings_of (scan_unit unclosed_unit))" by simp
  from finding_line_numbers [of unclosed_unit] k7
  have "starting_line (findings_of (scan_unit unclosed_unit) ! 0) =
         Some ((case start_line unclosed_unit of None \<Rightarrow> 0 | Some b \<Rightarrow> b)
           + (int (count_nl (take (m_start (flagged (src_of unclosed_unit) ! 0)) (src_of unclosed_unit))) + 1))"
    and "ending_line (findings_of (scan_unit unclosed_unit) ! 0) =
         Some ((case start_line unclosed_unit of None \<Rightarrow> 0 | Some b \<Rightarrow> b)
           + (int (count_nl (take (m_start (flagged (src_of unclosed_unit) ! 0)) (src_of unclosed_unit))) + 1)
           + (int (count_nl (get_line_snippet (src_of unclosed_unit) (m_start (flagged (src_of unclosed_unit) ! 0))
                (m_end (flagged (src_of unclosed_unit) ! 0)))) + 1))"
    by blast+
  moreover have "count_nl [] = 0" by (simp add: count_nl_def)
  ultimately have b: "starting_line (findings_of (scan_unit unclosed_unit) ! 0) = Some 8"
    "ending_line (findings_of (scan_unit unclosed_unit) ! 0) = Some 9"
    by (simp_all add: unclosed_lines)
  from a b c l show ?thesis
    by (simp add: lines_length lines_base unclosed_lines)
qed

section \<open>Detection of the four names\<close>

text \<open>
  C3 as stated fails, in two ways. The first unit below holds, on its second line, a call
  of \<open>WS_UPLOAD\<close> in single quotation marks and upper case, and \<open>scan_unit\<close> returns no
  finding: the statement match that begins at the keywords of the comment line runs to the
  first full stop, which is the one of the call, and the name read from it is \<open>x\<close>. The
  second unit is the same call written with no white space between \<open>FUNCTION\<close> and the
  opening quotation mark: the statement pattern matches it, the name pattern, which asks
  for white space there, does not, and \<open>scan_unit\<close> returns no finding.
\<close>

theorem listed_calls_not_detected:
  "src_of swallow_unit = ''* CALL FUNCTION x'' @ [NL] @
       call_stmt ''CALL'' '' '' ''FUNCTION'' '' '' [SQ] ''WS_UPLOAD'' [SQ] [] \<and>
   call_shape ''CALL'' '' '' ''FUNCTION'' '' '' [SQ] ''WS_UPLOAD'' [SQ] [] \<and>
   upper ''WS_UPLOAD'' \<in> OBSOLETE_FMS \<and>
   finditer STMT_RE (src_of swallow_unit) 0 = [\<lparr>m_start = 2, m_end = 44, m_fname = None\<rparr>] \<and>
   findings_of (scan_unit swallow_unit) = [] \<and>
   src_of tight_unit = call_stmt ''CALL'' '' '' ''FUNCTION'' [] [SQ] ''WS_UPLOAD'' [SQ] [] \<and>
   finditer STMT_RE (src_of tight_unit) 0 = [\<lparr>m_start = 0, m_end = 25, m_fname = None\<rparr>] \<and>
   re_search FN_NAME_RE (src_of tight_unit) 0 = None \<and>
   findings_of (scan_unit tight_unit) = []"
  by code_simp

text \<open>
  C3 (as amended). Take a call statement written as \<open>call_shape\<close> says: the keyword
  \<open>CALL\<close>, white space, the keyword \<open>FUNCTION\<close>, white space, then one of the four names,
  bare or directly between two single or two double quotation marks, then the rest of the
  statement up to its first full stop; keywords and name in any mix of upper and lower
  case, and a bare name not directly followed by a letter, digit or underscore. Let it
  stand in the unit text where no word character comes right before the keyword \<open>CALL\<close>
  and where no statement match that begins earlier runs into it (every earlier pair of
  keywords, also one in a comment, has its full stop before the statement begins). Then
  \<open>scan_unit\<close> reports the statement: one finding belongs to the match that begins at the
  statement and ends with its full stop, its message names the uppercased name, and no
  other finding belongs to a match beginning there.
\<close>

theorem listed_call_detected_once:
  fixes u :: Unit
  defines "src \<equiv> src_of u" and "fs \<equiv> findings_of (scan_unit u)"
  assumes "call_shape kw1 ws1 kw2 ws2 q nm q body"
    and "upper nm \<in> OBSOLETE_FMS"
    and "src_of u = pre @ call_stmt kw1 ws1 kw2 ws2 q nm q body @ post"
    and "pre = [] \<or> \<not> is_word (last pre)"
    and "\<forall>i<length pre. \<forall>m. match_at STMT_RE (src_of u) i = Some m \<longrightarrow> m_end m \<le> length pre"
  shows "\<exists>k<length fs.
      m_start (flagged src ! k) = length pre \<and>
      m_end (flagged src ! k) = length pre + length (call_stmt kw1 ws1 kw2 ws2 q nm q body) \<and>
      message (fs ! k) =
        Some (''Obsolete function module '' @ [SQ] @ upper nm @ [SQ] @ '' detected (non-Unicode).'') \<and>
      (\<forall>j<length fs. m_start (flagged src ! j) = length pre \<longrightarrow> j = k)"
proof -
  from call_found_in_context [OF assms(3-7)] obtain k where
    k: "k < length fs"
      "flagged src ! k = \<lparr>m_start = length pre,
         m_end = length pre + length (call_stmt kw1 ws1 kw2 ws2 q nm q body), m_fname = None\<rparr>"
      "fs ! k = make_finding u src (base_start_of u) (flagged src ! k) (upper nm)"
      "\<forall>j<length fs. m_start (flagged src ! j) = length pre \<longrightarrow> j = k"
    unfolding src_def fs_def by blast
  from k(2) have "m_start (flagged src ! k) = length pre"
    "m_end (flagged src ! k) = length pre + length (call_stmt kw1 ws1 kw2 ws2 q nm q body)"
    by simp_all
  moreover from k(3) have "message (fs ! k) =
      Some (''Obsolete function module '' @ [SQ] @ upper nm @ [SQ] @ '' detected (non-Unicode).'')"
    by (simp only: make_finding_message)
  ultimately show ?thesis using k(1) k(4) by blast
qed

theorem listed_call_detected_once_witness:
  "(\<exists>k<length (findings_of (scan_unit lines_unit)).
      m_start (flagged (src_of lines_unit) ! k) = 24 \<and>
      message (findings_of (scan_unit lines_unit) ! k) =
        Some (''Obsolete function module '' @ [SQ] @ ''UPLOAD'' @ [SQ] @ '' detected (non-Unicode).'')) \<and>
   (\<exists>k<length (findings_of (scan_unit lines_unit)).
      m_start (flagged (src_of lines_unit) ! k) = 48 \<and>
      message (findings_of (scan_unit lines_unit) ! k) =
        Some (''Obsolete function module '' @ [SQ] @ ''WS_DOWNLOAD'' @ [SQ] @ '' detected (non-Unicode).'')) \<and>
   (\<exists>k<length (findings_of (scan_unit lines_unit)).
      m_start (flagged (src_of lines_unit) ! k) = 93 \<and>
      message (findings_of (scan_unit lines_unit) ! k) =
        Some (''Obsolete function module '' @ [SQ] @ ''DOWNLOAD'' @ [SQ] @ '' detected (non-Unicode).''))"
proof -
  let ?p1 = "''DATA t TYPE i.'' @ [NL] @ ''WRITE t.'' @ [NL]"
  let ?p2 = "''DATA t TYPE i.'' @ [NL] @ ''WRITE t.'' @ [NL] @
      ''CALL FUNCTION '' @ [SQ] @ ''UPLOAD'' @ [SQ] @ ''.'' @ [NL]"
  let ?p3 = "''DATA t TYPE i.'' @ [NL] @ ''WRITE t.'' @ [NL] @
      ''CALL FUNCTION '' @ [SQ] @ ''UPLOAD'' @ [SQ] @ ''.'' @ [NL] @
      ''call function '' @ [DQ] @ ''ws_download'' @ [DQ] @ '' exporting a = b.'' @ [NL]"
  have len: "length ?p1 = 24" "length ?p2 = 48" "length ?p3 = 93"
    by simp_all
  have pre: "?p1 = [] \<or> \<not> is_word (last ?p1)" "?p2 = [] \<or> \<not> is_word (last ?p2)"
    "?p3 = [] \<or> \<not> is_word (last ?p3)"
    by code_simp+
  note t1 = listed_call_detected_once [OF lines_shapes(1) lines_shapes(4) lines_parts(1) pre(1),
      unfolded len lines_shapes(7), OF lines_clear(1)]
  note t2 = listed_call_detected_once [OF lines_shapes(2) lines_shapes(5) lines_parts(2) pre(2),
      unfolded len lines_shapes(8), OF lines_clear(2)]
  note t3 = listed_call_detected_once [OF lines_shapes(3) lines_shapes(6) lines_parts(3) pre(3),
      unfolded len lines_shapes(9), OF lines_clear(3)]
  from t1 have 1: "\<exists>k<length (findings_of (scan_unit lines_unit)).
      m_start (flagged (src_of lines_unit) ! k) = 24 \<and>
      message (findings_of (scan_unit lines_unit) ! k) =
        Some (''Obsolete function module '' @ [SQ] @ ''UPLOAD'' @ [SQ] @ '' detected (non-Unicode).'')"
    by blast
  from t2 have 2: "\<exists>k<length (findings_of (scan_unit lines_unit)).
      m_start (flagged (src_of lines_unit) ! k) = 48 \<and>
      message (findings_of (scan_unit lines_unit) ! k) =
        Some (''Obsolete function module '' @ [SQ] @ ''WS_DOWNLOAD'' @ [SQ] @ '' detected (non-Unicode).'')"
    by blast
  from t3 have 3: "\<exists>k<length (findings_of (scan_unit lines_unit)).
      m_start (flagged (src_of lines_unit) ! k) = 93 \<and>
      message (findings_of (scan_unit lines_unit) ! k) =
        Some (''Obsolete function module '' @ [SQ] @ ''DOWNLOAD'' @ [SQ] @ '' detected (non-Unicode).'')"
    by blast
  from 1 2 3 show ?thesis by blast
qed

section \<open>The batch\<close>

text \<open>
  C4. For every list of units, \<open>scan_rule_array\<close> returns, in the order of the input, the
  results of \<open>scan_unit\<close> for exactly the units for which \<open>scan_unit\<close> reports at least one
  finding; each result carries its findings, and a unit without findings is left out.
\<close>

theorem batch_keeps_units_with_findings:
  "\<exists>rs. scan_rule_array units = Inr rs \<and>
     map Inr rs = map scan_unit (filter (\<lambda>u. findings_of (scan_unit u) \<noteq> []) units) \<and>
     length rs = length (filter (\<lambda>u. findings_of (scan_unit u) \<noteq> []) units)"
proof -
  from scan_rule_array_loop_eq [of units "[]"] obtain rs where
    rs: "scan_rule_array units = Inr rs"
      "map Inr rs = map scan_unit (filter (\<lambda>u. findings_of (scan_unit u) \<noteq> []) units)"
    by (auto simp: scan_rule_array_def)
  from rs(2) have "length (map Inr rs :: (error + Unit) list) =
      length (map scan_unit (filter (\<lambda>u. findings_of (scan_unit u) \<noteq> []) units))"
    by simp
  then have "length rs = length (filter (\<lambda>u. findings_of (scan_unit u) \<noteq> []) units)"
    by simp
  with rs show ?thesis by blast
qed

theorem batch_keeps_units_with_findings_witness:
  "\<exists>r. scan_rule_array [quiet_unit, scenario_unit, modern_unit] = Inr [r] \<and>
     scan_unit scenario_unit = Inr r \<and> length (findings_of (Inr r)) = 1"
proof -
  from batch_keeps_units_with_findings [of "[quiet_unit, scenario_unit, modern_unit]"]
  obtain rs where rs: "scan_rule_array [quiet_unit, scenario_unit, modern_unit] = Inr rs"
    "map Inr rs = map scan_unit [scenario_unit]"
    unfolding batch_facts by blast
  from rs(2) obtain r where r: "rs = [r]" "scan_unit scenario_unit = Inr r"
    by (cases rs) auto
  have "length (findings_of (scan_unit scenario_unit)) = 1"
    by (simp add: findings_of_scan_unit src_of_def scenario_unit_def scenario_flagged)
  with rs(1) r show ?thesis by simp
qed

section \<open>Snippets\<close>

text \<open>
  C5. The snippet of a finding is the stretch of the unit text that begins right after
  the last line feed before the start of the matched statement (or at the start of the
  text) and ends at the first line feed at or after the end of the match (or at the end
  of the text), with every line feed in it replaced by a backslash and the letter n. No
  line feed lies between the start of the stretch and the start of the match, nor between
  the end of the match and the end of the stretch, so no neighbouring line is included.
\<close>

theorem snippet_is_full_lines:
  fixes u :: Unit
  defines "src \<equiv> src_of u" and "fs \<equiv> findings_of (scan_unit u)"
  shows "length fs = length (flagged src) \<and>
    (\<forall>k<length fs. \<exists>ls le.
       ls \<le> m_start (flagged src ! k) \<and> m_end (flagged src ! k) \<le> le \<and> le \<le> length src \<and>
       (ls = 0 \<or> src ! (ls - 1) = NL) \<and> (le = length src \<or> src ! le = NL) \<and>
       NL \<notin> set (slice src ls (m_start (flagged src ! k))) \<and>
       NL \<notin> set (slice src (m_end (flagged src ! k)) le) \<and>
       snippet (fs ! k) =
         Some (concat (map (\<lambda>c. if c = NL then [CHR 0x5C, CHR ''n''] else [c]) (slice src ls le))))"
proof -
  have fs: "fs = map (\<lambda>m. make_finding u src (base_start_of u) m (fm_of src m)) (flagged src)"
    by (simp add: fs_def src_def findings_of_scan_unit)
  have "\<exists>ls le.
       ls \<le> m_start (flagged src ! k) \<and> m_end (flagged src ! k) \<le> le \<and> le \<le> length src \<and>
       (ls = 0 \<or> src ! (ls - 1) = NL) \<and> (le = length src \<or> src ! le = NL) \<and>
       NL \<notin> set (slice src ls (m_start (flagged src ! k))) \<and>
       NL \<notin> set (slice src (m_end (flagged src ! k)) le) \<and>
       snippet (fs ! k) =
         Some (concat (map (\<lambda>c. if c = NL then [CHR 0x5C, CHR ''n''] else [c]) (slice src ls le)))"
    if k: "k < length fs" for k
  proof -
    from k have kf: "k < length (flagged src)" by (simp add: fs)
    from flagged_bounds [OF kf] have b: "m_start (flagged src ! k) \<le> m_end (flagged src ! k)"
      "m_end (flagged src ! k) \<le> length src" by simp_all
    from get_line_snippet_spec [OF b] obtain ls le where
      sn: "get_line_snippet src (m_start (flagged src ! k)) (m_end (flagged src ! k)) = slice src ls le"
      and rest: "ls \<le> m_start (flagged src ! k)" "m_end (flagged src ! k) \<le> le" "le \<le> length src"
        "ls = 0 \<or> src ! (ls - 1) = NL" "le = length src \<or> src ! le = NL"
        "NL \<notin> set (slice src ls (m_start (flagged src ! k)))"
        "NL \<notin> set (slice src (m_end (flagged src ! k)) le)"
      by blast
    have "snippet (fs ! k) =
        Some (concat (map (\<lambda>c. if c = NL then [CHR 0x5C, CHR ''n''] else [c]) (slice src ls le)))"
      using kf by (simp add: fs make_finding_def Let_def sn replace_nl_def)
    with rest show ?thesis by blast
  qed
  then show ?thesis by (simp add: fs)
qed

theorem snippet_is_full_lines_witness:
  "0 < length (findings_of (scan_unit scenario_unit)) \<and>
   flagged (src_of scenario_unit) ! 0 = \<lparr>m_start = 0, m_end = 44, m_fname = None\<rparr> \<and>
   (\<exists>ls le. ls \<le> 0 \<and> 44 \<le> le \<and> le \<le> length (src_of scenario_unit) \<and>
      snippet (findings_of (scan_unit scenario_unit) ! 0) =
        Some (concat (map (\<lambda>c. if c = NL then [CHR 0x5C, CHR ''n''] else [c])
          (slice (src_of scenario_unit) ls le)))) \<and>
   snippet (findings_of (scan_unit scenario_unit) ! 0) =
     Some (''CALL FUNCTION '' @ [SQ] @ ''WS_UPLOAD'' @ [SQ, CHR 0x5C] @ ''n  EXPORTING x = y.'')"
proof -
  have src: "src_of scenario_unit = scenario_code"
    by (simp add: src_of_def scenario_unit_def)
  have k: "0 < length (findings_of (scan_unit scenario_unit))"
    by (simp add: findings_of_scan_unit src scenario_flagged)
  have m: "flagged (src_of scenario_unit) ! 0 = \<lparr>m_start = 0, m_end = 44, m_fname = None\<rparr>"
    by (simp add: src scenario_flagged)
  from snippet_is_full_lines [of scenario_unit] k
  have "\<exists>ls le. ls \<le> m_start (flagged (src_of scenario_unit) ! 0) \<and>
      m_end (flagged (src_of scenario_unit) ! 0) \<le> le \<and> le \<le> length (src_of scenario_unit) \<and>
      snippet (findings_of (scan_unit scenario_unit) ! 0) =
        Some (concat (map (\<lambda>c. if c = NL then [CHR 0x5C, CHR ''n''] else [c])
          (slice (src_of scenario_unit) ls le)))"
    by blast
  then have "\<exists>ls le. ls \<le> 0 \<and> 44 \<le> le \<and> le \<le> length (src_of scenario_unit) \<and>
      snippet (findings_of (scan_unit scenario_unit) ! 0) =
        Some (concat (map (\<lambda>c. if c = NL then [CHR 0x5C, CHR ''n''] else [c])
          (slice (src_of scenario_unit) ls le)))"
    unfolding m by simp
  with k m scenario_snippet show ?thesis by blast
qed

section \<open>Units without findings\<close>

text \<open>
  C6. For every unit \<open>scan_unit\<close> returns a result: the unit with a list of findings. The
  list is empty when the code is empty, when the text does not hold the word \<open>CALL\<close> in
  any spelling, when no statement names a function module of the list, and when no full
  stop follows any place where the word \<open>CALL\<close> begins.
\<close>

theorem scan_unit_never_raises:
  fixes u :: Unit
  defines "src \<equiv> src_of u"
  shows "\<exists>fs. scan_unit u = Inr (u\<lparr>findings := Some fs\<rparr>) \<and>
    (src = [] \<longrightarrow> fs = []) \<and>
    (\<not> contains ''CALL'' (upper src) \<longrightarrow> fs = []) \<and>
    ((\<forall>m \<in> set (finditer STMT_RE src 0). \<forall>nm g.
         re_search FN_NAME_RE (group0 src m) 0 = Some nm \<and> group_fname (group0 src m) nm = Some g
           \<longrightarrow> upper g \<notin> OBSOLETE_FMS) \<longrightarrow> fs = []) \<and>
    ((\<forall>i. upper (slice src i (i + 4)) = ''CALL'' \<longrightarrow> DOT \<notin> set (drop i src)) \<longrightarrow> fs = [])"
proof -
  define fs where "fs = map (\<lambda>m. make_finding u src (base_start_of u) m (fm_of src m)) (flagged src)"
  have res: "scan_unit u = Inr (u\<lparr>findings := Some fs\<rparr>)"
    by (simp add: fs_def src_def scan_unit_eq)
  have none: "fs = []" if "finditer STMT_RE src 0 = []"
    using that by (simp add: fs_def flagged_def)
  have a: "fs = []" if "\<not> contains ''CALL'' (upper src)"
  proof (rule none, rule ccontr)
    assume "finditer STMT_RE src 0 \<noteq> []"
    then obtain m where "m \<in> set (finditer STMT_RE src 0)"
      by (cases "finditer STMT_RE src 0") auto
    from finditer_stmt_shape [OF this] call_in_text that show False by blast
  qed
  have e: "fs = []" if "src = []"
  proof (rule a)
    from that show "\<not> contains ''CALL'' (upper src)" by (simp add: upper_def)
  qed
  have b: "fs = []"
    if h: "\<forall>m \<in> set (finditer STMT_RE src 0). \<forall>nm g.
         re_search FN_NAME_RE (group0 src m) 0 = Some nm \<and> group_fname (group0 src m) nm = Some g
           \<longrightarrow> upper g \<notin> OBSOLETE_FMS"
  proof -
    have "\<not> is_flagged src m" if m: "m \<in> set (finditer STMT_RE src 0)" for m
    proof
      assume "is_flagged src m"
      from is_flagged_name [OF this] h m show False by metis
    qed
    then show ?thesis by (simp add: fs_def flagged_Nil_iff)
  qed
  have c: "fs = []" if h: "\<forall>i. upper (slice src i (i + 4)) = ''CALL'' \<longrightarrow> DOT \<notin> set (drop i src)"
  proof (rule none, rule ccontr)
    assume "finditer STMT_RE src 0 \<noteq> []"
    then obtain m where "m \<in> set (finditer STMT_RE src 0)"
      by (cases "finditer STMT_RE src 0") auto
    from finditer_stmt_shape [OF this] h show False by blast
  qed
  from res e a b c show ?thesis by blast
qed

theorem scan_unit_never_raises_witness:
  "scan_unit empty_unit = Inr (empty_unit\<lparr>findings := Some []\<rparr>) \<and>
   scan_unit quiet_unit = Inr (quiet_unit\<lparr>findings := Some []\<rparr>) \<and>
   scan_unit modern_unit = Inr (modern_unit\<lparr>findings := Some []\<rparr>) \<and>
   scan_unit open_unit = Inr (open_unit\<lparr>findings := Some []\<rparr>)"
proof -
  from scan_unit_never_raises [of empty_unit] quiet_facts(1)
  have 1: "scan_unit empty_unit = Inr (empty_unit\<lparr>findings := Some []\<rparr>)" by auto
  from scan_unit_never_raises [of quiet_unit] quiet_facts(2)
  have 2: "scan_unit quiet_unit = Inr (quiet_unit\<lparr>findings := Some []\<rparr>)" by auto
  have "\<forall>m \<in> set (finditer STMT_RE (src_of modern_unit) 0). \<forall>nm g.
         re_search FN_NAME_RE (group0 (src_of modern_unit) m) 0 = Some nm \<and>
         group_fname (group0 (src_of modern_unit) m) nm = Some g
           \<longrightarrow> upper g \<notin> OBSOLETE_FMS"
    using quiet_facts(6) by (auto simp: quiet_facts(3,4,5))
  with scan_unit_never_raises [of modern_unit]
  have 3: "scan_unit modern_unit = Inr (modern_unit\<lparr>findings := Some []\<rparr>)" by auto
  have "\<forall>i. upper (slice (src_of open_unit) i (i + 4)) = ''CALL'' \<longrightarrow> DOT \<notin> set (drop i (src_of open_unit))"
    using quiet_facts(7) by (auto dest: in_set_dropD)
  with scan_unit_never_raises [of open_unit]
  have 4: "scan_unit open_unit = Inr (open_unit\<lparr>findings := Some []\<rparr>)" by auto
  from 1 2 3 4 show ?thesis by blast
qed

section \<open>Suggestions\<close>

text \<open>
  C7. Every finding comes from a statement whose name, uppercased, is one of the four
  flagged names. Its suggestion is the upload template when that uppercased name contains
  \<open>UPLOAD\<close> and the download template otherwise. The two templates are constants: the
  first names \<open>GUI_UPLOAD\<close> and \<open>CL_GUI_FRONTEND_SERVICES=>GUI_UPLOAD\<close>, the second
  \<open>GUI_DOWNLOAD\<close>. The names \<open>WS_UPLOAD\<close> and \<open>UPLOAD\<close> get the first, \<open>WS_DOWNLOAD\<close> and
  \<open>DOWNLOAD\<close> the second.
\<close>

theorem suggestion_by_direction:
  fixes u :: Unit
  defines "src \<equiv> src_of u" and "fs \<equiv> findings_of (scan_unit u)"
  shows "length fs = length (flagged src) \<and>
    (\<forall>k<length fs.
       (\<exists>nm g. re_search FN_NAME_RE (group0 src (flagged src ! k)) 0 = Some nm \<and>
          group_fname (group0 src (flagged src ! k)) nm = Some g \<and>
          fm_of src (flagged src ! k) = upper g) \<and>
       fm_of src (flagged src ! k) \<in> OBSOLETE_FMS \<and>
       suggestion (fs ! k) =
         Some (if contains ''UPLOAD'' (fm_of src (flagged src ! k))
               then UPLOAD_SUGGESTION else DOWNLOAD_SUGGESTION) \<and>
       (fm_of src (flagged src ! k) \<in> {''WS_UPLOAD'', ''UPLOAD''}
          \<longrightarrow> suggestion (fs ! k) = Some UPLOAD_SUGGESTION) \<and>
       (fm_of src (flagged src ! k) \<in> {''WS_DOWNLOAD'', ''DOWNLOAD''}
          \<longrightarrow> suggestion (fs ! k) = Some DOWNLOAD_SUGGESTION)) \<and>
    contains ''GUI_UPLOAD'' UPLOAD_SUGGESTION \<and>
    contains ''CL_GUI_FRONTEND_SERVICES=>GUI_UPLOAD'' UPLOAD_SUGGESTION \<and>
    contains ''GUI_DOWNLOAD'' DOWNLOAD_SUGGESTION"
proof -
  have fs: "fs = map (\<lambda>m. make_finding u src (base_start_of u) m (fm_of src m)) (flagged src)"
    by (simp add: fs_def src_def findings_of_scan_unit)
  have sg: "suggestion (fs ! k) =
         Some (if contains ''UPLOAD'' (fm_of src (flagged src ! k))
               then UPLOAD_SUGGESTION else DOWNLOAD_SUGGESTION)"
    if "k < length fs" for k
    using that by (simp add: fs make_finding_def Let_def)
  have nm: "(\<exists>nm g. re_search FN_NAME_RE (group0 src (flagged src ! k)) 0 = Some nm \<and>
          group_fname (group0 src (flagged src ! k)) nm = Some g \<and>
          fm_of src (flagged src ! k) = upper g) \<and>
       fm_of src (flagged src ! k) \<in> OBSOLETE_FMS"
    if "k < length fs" for k
  proof -
    from that have "is_flagged src (flagged src ! k)"
      by (simp add: fs flagged_is_flagged)
    from is_flagged_name [OF this] show ?thesis by blast
  qed
  have up: "suggestion (fs ! k) = Some UPLOAD_SUGGESTION"
    if "k < length fs" "fm_of src (flagged src ! k) \<in> {''WS_UPLOAD'', ''UPLOAD''}" for k
    using sg [OF that(1)] that(2) suggestion_texts(4,5) by auto
  have down: "suggestion (fs ! k) = Some DOWNLOAD_SUGGESTION"
    if "k < length fs" "fm_of src (flagged src ! k) \<in> {''WS_DOWNLOAD'', ''DOWNLOAD''}" for k
    using sg [OF that(1)] that(2) suggestion_texts(6,7) by auto
  have "length fs = length (flagged src)" by (simp add: fs)
  with sg nm up down suggestion_texts(1,2,3) show ?thesis by blast
qed

theorem suggestion_by_direction_witness:
  "1 < length (findings_of (scan_unit lines_unit)) \<and>
   fm_of (src_of lines_unit) (flagged (src_of lines_unit) ! 0) = ''UPLOAD'' \<and>
   suggestion (findings_of (scan_unit lines_unit) ! 0) = Some UPLOAD_SUGGESTION \<and>
   fm_of (src_of lines_unit) (flagged (src_of lines_unit) ! 1) = ''WS_DOWNLOAD'' \<and>
   suggestion (findings_of (scan_unit lines_unit) ! 1) = Some DOWNLOAD_SUGGESTION"
proof -
  have k: "0 < length (findings_of (scan_unit lines_unit))" "1 < length (findings_of (scan_unit lines_unit))"
    by (simp_all add: lines_length)
  have f0: "fm_of (src_of lines_unit) (flagged (src_of lines_unit) ! 0) = ''UPLOAD''"
    and f1: "fm_of (src_of lines_unit) (flagged (src_of lines_unit) ! 1) = ''WS_DOWNLOAD''"
    by (simp_all add: lines_src lines_flagged lines_fm)
  from suggestion_by_direction [of lines_unit] k(1)
  have "fm_of (src_of lines_unit) (flagged (src_of lines_unit) ! 0) \<in> {''WS_UPLOAD'', ''UPLOAD''}
          \<longrightarrow> suggestion (findings_of (scan_unit lines_unit) ! 0) = Some UPLOAD_SUGGESTION"
    by blast
  with f0 have s0: "suggestion (findings_of (scan_unit lines_unit) ! 0) = Some UPLOAD_SUGGESTION"
    by simp
  from suggestion_by_direction [of lines_unit] k(2)
  have "fm_of (src_of lines_unit) (flagged (src_of lines_unit) ! 1) \<in> {''WS_DOWNLOAD'', ''DOWNLOAD''}
          \<longrightarrow> suggestion (findings_of (scan_unit lines_unit) ! 1) = Some DOWNLOAD_SUGGESTION"
    by blast
  with f1 have s1: "suggestion (findings_of (scan_unit lines_unit) ! 1) = Some DOWNLOAD_SUGGESTION"
    by simp
  from k(2) f0 s0 f1 s1 show ?thesis by blast
qed

section \<open>Order of the findings\<close>

text \<open>
  C8. The findings of a unit are, one for one and in the same order, the findings built
  for the reported statement matches, and these matches are listed by increasing start
  offset: of two findings the earlier one belongs to the statement that starts earlier in
  the text.
\<close>

theorem findings_in_textual_order:
  fixes u :: Unit
  defines "src \<equiv> src_of u" and "fs \<equiv> findings_of (scan_unit u)"
  shows "fs = map (\<lambda>m. make_finding u src (base_start_of u) m (fm_of src m)) (flagged src) \<and>
    (\<forall>j k. j < k \<and> k < length fs \<longrightarrow>
       m_start (flagged src ! j) < m_start (flagged src ! k) \<and>
       m_end (flagged src ! j) \<le> m_start (flagged src ! k))"
proof -
  have fs: "fs = map (\<lambda>m. make_finding u src (base_start_of u) m (fm_of src m)) (flagged src)"
    by (simp add: fs_def src_def findings_of_scan_unit)
  have "sorted_wrt (\<lambda>a b. m_start a < m_start b) (flagged src)"
    "sorted_wrt (\<lambda>a b. m_end a \<le> m_start b) (flagged src)"
    unfolding flagged_def
    by (intro sorted_wrt_filter finditer_stmt_starts_sorted finditer_stmt_sorted)+
  then have "\<forall>j k. j < k \<and> k < length (flagged src) \<longrightarrow>
       m_start (flagged src ! j) < m_start (flagged src ! k) \<and>
       m_end (flagged src ! j) \<le> m_start (flagged src ! k)"
    by (auto simp: sorted_wrt_iff_nth_less)
  with fs show ?thesis by simp
qed

theorem findings_in_textual_order_witness:
  "length (findings_of (scan_unit lines_unit)) = 3 \<and>
   m_start (flagged (src_of lines_unit) ! 0) < m_start (flagged (src_of lines_unit) ! 1) \<and>
   m_start (flagged (src_of lines_unit) ! 1) < m_start (flagged (src_of lines_unit) ! 2) \<and>
   map message (findings_of (scan_unit lines_unit)) =
     [Some (''Obsolete function module '' @ [SQ] @ ''UPLOAD'' @ [SQ] @ '' detected (non-Unicode).''),
      Some (''Obsolete function module '' @ [SQ] @ ''WS_DOWNLOAD'' @ [SQ] @ '' detected (non-Unicode).''),
      Some (''Obsolete function module '' @ [SQ] @ ''DOWNLOAD'' @ [SQ] @ '' detected (non-Unicode).'')]"
proof -
  have l: "length (findings_of (scan_unit lines_unit)) = 3" by (rule lines_length)
  from findings_in_textual_order [of lines_unit]
  have fs: "findings_of (scan_unit lines_unit) =
      map (\<lambda>m. make_finding lines_unit (src_of lines_unit) (base_start_of lines_unit) m
        (fm_of (src_of lines_unit) m)) (flagged (src_of lines_unit))"
    and ord: "\<forall>j k. j < k \<and> k < length (findings_of (scan_unit lines_unit)) \<longrightarrow>
       m_start (flagged (src_of lines_unit) ! j) < m_start (flagged (src_of lines_unit) ! k)"
    by blast+
  from ord l have "m_start (flagged (src_of lines_unit) ! 0) < m_start (flagged (src_of lines_unit) ! 1)"
    "m_start (flagged (src_of lines_unit) ! 1) < m_start (flagged (src_of lines_unit) ! 2)"
    by simp_all
  moreover have "map message (findings_of (scan_unit lines_unit)) =
     [Some (''Obsolete function module '' @ [SQ] @ ''UPLOAD'' @ [SQ] @ '' detected (non-Unicode).''),
      Some (''Obsolete function module '' @ [SQ] @ ''WS_DOWNLOAD'' @ [SQ] @ '' detected (non-Unicode).''),
      Some (''Obsolete function module '' @ [SQ] @ ''DOWNLOAD'' @ [SQ] @ '' detected (non-Unicode).'')]"
    unfolding fs lines_src lines_flagged
    by (simp add: lines_fm make_finding_def Let_def)
  ultimately show ?thesis using l by blast
qed

section \<open>The caller's unit is left alone\<close>

text \<open>
  C9. Called with a reference to a unit of the store, \<open>scan_unit\<close> returns a reference to a
  new object. Every object the store held before the call, the caller's unit among them,
  is the same after it. The new object has the fields \<open>pgm_name\<close>, \<open>inc_name\<close>, \<open>type\<close>,
  \<open>name\<close>, \<open>start_line\<close>, \<open>end_line\<close> and \<open>code\<close> of the caller's unit, and it is the
  result that \<open>scan_unit\<close> computes from the value of the caller's unit.
\<close>

theorem scan_unit_leaves_input:
  assumes "unit < length h"
  shows "\<exists>out h'. scan_unit_ref h unit = Inr (out, h') \<and>
    out \<noteq> unit \<and> out = length h \<and> length h' = Suc (length h) \<and>
    (\<forall>r < length h. h' ! r = h ! r) \<and> h' ! unit = h ! unit \<and>
    pgm_name (h' ! out) = pgm_name (h ! unit) \<and> inc_name (h' ! out) = inc_name (h ! unit) \<and>
    type (h' ! out) = type (h ! unit) \<and> name (h' ! out) = name (h ! unit) \<and>
    start_line (h' ! out) = start_line (h ! unit) \<and> end_line (h' ! out) = end_line (h ! unit) \<and>
    code (h' ! out) = code (h ! unit) \<and>
    scan_unit (h ! unit) = Inr (h' ! out)"
proof -
  define fs where "fs = findings_of (scan_unit (h ! unit))"
  define h' where "h' = h @ [(h ! unit)\<lparr>findings := Some fs\<rparr>]"
  have loop: "scan_loop (h ! unit) (src_of (h ! unit)) (base_start_of (h ! unit))
      (finditer STMT_RE (src_of (h ! unit)) 0) [] = Inr fs"
    by (simp add: fs_def scan_loop_eq findings_of_scan_unit flagged_def)
  have r: "scan_unit_ref h unit = Inr (length h, h')"
    by (simp add: scan_unit_ref_def Let_def loop h'_def)
  have u: "scan_unit (h ! unit) = Inr (h' ! length h)"
    by (simp add: scan_unit_def Let_def loop h'_def)
  have old: "\<forall>r < length h. h' ! r = h ! r"
    by (simp add: h'_def nth_append)
  have new: "h' ! length h = (h ! unit)\<lparr>findings := Some fs\<rparr>"
    by (simp add: h'_def)
  from assms old have same: "h' ! unit = h ! unit" by simp
  from assms have ne: "length h \<noteq> unit" by simp
  have len: "length h' = Suc (length h)" by (simp add: h'_def)
  show ?thesis
    using r u old same ne len by (intro exI [of _ "length h"] exI [of _ h']) (simp add: new)
qed

theorem scan_unit_leaves_input_witness:
  "1 < length two_units \<and>
   (\<exists>h'. scan_unit_ref two_units 1 = Inr (2, h') \<and> h' ! 0 = two_units ! 0 \<and> h' ! 1 = two_units ! 1 \<and>
      code (h' ! 2) = Some scenario_code \<and> findings (h' ! 1) = Some [] \<and>
      length (findings_of (Inr (h' ! 2))) = 1)"
proof -
  have l: "1 < length two_units" "length two_units = 2" by (simp_all add: two_units_def)
  from scan_unit_leaves_input [OF l(1)] obtain out h' where
    r: "scan_unit_ref two_units 1 = Inr (out, h')" "out = length two_units"
      "\<forall>r < length two_units. h' ! r = two_units ! r"
      "code (h' ! out) = code (two_units ! 1)" "scan_unit (two_units ! 1) = Inr (h' ! out)"
    by blast
  from r(2) l(2) have out: "out = 2" by simp
  from r(3) l(2) have old: "h' ! 0 = two_units ! 0" "h' ! 1 = two_units ! 1" by simp_all
  have c: "code (two_units ! 1) = Some scenario_code" "findings (two_units ! 1) = Some []"
    by (simp_all add: two_units_def scenario_unit_def)
  have "length (findings_of (scan_unit (two_units ! 1))) = 1"
    by (simp add: findings_of_scan_unit two_units_def src_of_def scenario_unit_def scenario_flagged)
  with r(5) have n: "length (findings_of (Inr (h' ! out))) = 1" by simp
  from r(1) r(4) old c n l(1) show ?thesis unfolding out by auto
qed

section \<open>Quotation marks that do not pair up\<close>

text \<open>
  C10 as stated fails, in two ways. Both units below hold a call of \<open>WS_UPLOAD\<close> whose name
  has an opening single quotation mark and no closing one, and for both \<open>scan_unit\<close>
  returns no finding. In the first the call follows a comment line that holds the
  keywords: the statement match that begins there runs to the full stop of the call, and
  the name read from it is \<open>x\<close>. In the second no white space stands between \<open>FUNCTION\<close>
  and the quotation mark: the statement pattern matches, the name pattern does not, so no
  name is extracted.
\<close>

theorem unclosed_calls_not_detected:
  "src_of unclosed_swallow_unit = ''* CALL FUNCTION x'' @ [NL] @
       call_stmt ''CALL'' '' '' ''FUNCTION'' '' '' [SQ] ''WS_UPLOAD'' [] [] \<and>
   call_shape ''CALL'' '' '' ''FUNCTION'' '' '' [SQ] ''WS_UPLOAD'' [] [] \<and>
   upper ''WS_UPLOAD'' \<in> OBSOLETE_FMS \<and>
   finditer STMT_RE (src_of unclosed_swallow_unit) 0 = [\<lparr>m_start = 2, m_end = 43, m_fname = None\<rparr>] \<and>
   findings_of (scan_unit unclosed_swallow_unit) = [] \<and>
   src_of unclosed_tight_unit = call_stmt ''CALL'' '' '' ''FUNCTION'' [] [SQ] ''WS_UPLOAD'' [] [] \<and>
   finditer STMT_RE (src_of unclosed_tight_unit) 0 = [\<lparr>m_start = 0, m_end = 24, m_fname = None\<rparr>] \<and>
   re_search FN_NAME_RE (src_of unclosed_tight_unit) 0 = None \<and>
   findings_of (scan_unit unclosed_tight_unit) = []"
  by code_simp

text \<open>
  C10 (as amended). Take a call statement written as \<open>call_shape\<close> says: the keyword
  \<open>CALL\<close>, white space, the keyword \<open>FUNCTION\<close>, white space, then a name of letters, digits
  and underscores with, on each side and each on its own, no quotation mark, a single one
  or a double one directly next to it, then the rest of the statement up to its first
  full stop; where the closing mark is missing, no letter, digit or underscore directly
  follows the name. For every such statement the name pattern finds the name, whatever
  the two marks are, and the loop body classifies its uppercased form. When that form is
  one of the four names and the statement stands in the unit text where no word character
  comes right before the keyword \<open>CALL\<close> and no statement match that begins earlier runs
  into it, a finding whose message names it is reported for the match that begins there.
\<close>

theorem unpaired_quotes_still_detected:
  fixes u :: Unit
  defines "src \<equiv> src_of u" and "fs \<equiv> findings_of (scan_unit u)"
  assumes "call_shape kw1 ws1 kw2 ws2 q1 nm q2 body"
    and "src_of u = pre @ call_stmt kw1 ws1 kw2 ws2 q1 nm q2 body @ post"
    and "pre = [] \<or> \<not> is_word (last pre)"
    and "\<forall>i<length pre. \<forall>m. match_at STMT_RE (src_of u) i = Some m \<longrightarrow> m_end m \<le> length pre"
  shows "(\<exists>m. re_search FN_NAME_RE (call_stmt kw1 ws1 kw2 ws2 q1 nm q2 body) 0 = Some m \<and>
            group_fname (call_stmt kw1 ws1 kw2 ws2 q1 nm q2 body) m = Some nm) \<and>
    stmt_fm src \<lparr>m_start = length pre,
        m_end = length pre + length (call_stmt kw1 ws1 kw2 ws2 q1 nm q2 body), m_fname = None\<rparr>
      = Inr (if upper nm \<in> OBSOLETE_FMS then Some (upper nm) else None) \<and>
    (upper nm \<in> OBSOLETE_FMS \<longrightarrow>
       (\<exists>k<length fs.
          m_start (flagged src ! k) = length pre \<and>
          message (fs ! k) =
            Some (''Obsolete function module '' @ [SQ] @ upper nm @ [SQ] @ '' detected (non-Unicode).'')))"
proof -
  have a: "\<exists>m. re_search FN_NAME_RE (call_stmt kw1 ws1 kw2 ws2 q1 nm q2 body) 0 = Some m \<and>
            group_fname (call_stmt kw1 ws1 kw2 ws2 q1 nm q2 body) m = Some nm"
    using assms(3) by (intro name_match_in_stmt) simp_all
  have b: "stmt_fm src \<lparr>m_start = length pre,
        m_end = length pre + length (call_stmt kw1 ws1 kw2 ws2 q1 nm q2 body), m_fname = None\<rparr>
      = Inr (if upper nm \<in> OBSOLETE_FMS then Some (upper nm) else None)"
    unfolding src_def by (rule stmt_fm_in_context [OF assms(3,4)])
  have c: "\<exists>k<length fs.
          m_start (flagged src ! k) = length pre \<and>
          message (fs ! k) =
            Some (''Obsolete function module '' @ [SQ] @ upper nm @ [SQ] @ '' detected (non-Unicode).'')"
    if ob: "upper nm \<in> OBSOLETE_FMS"
  proof -
    from call_found_in_context [OF assms(3) ob assms(4-6)] obtain k where
      k: "k < length fs"
        "flagged src ! k = \<lparr>m_start = length pre,
           m_end = length pre + length (call_stmt kw1 ws1 kw2 ws2 q1 nm q2 body), m_fname = None\<rparr>"
        "fs ! k = make_finding u src (base_start_of u) (flagged src ! k) (upper nm)"
      unfolding src_def fs_def by blast
    from k(2) have "m_start (flagged src ! k) = length pre" by simp
    moreover from k(3) have "message (fs ! k) =
        Some (''Obsolete function module '' @ [SQ] @ upper nm @ [SQ] @ '' detected (non-Unicode).'')"
      by (simp only: make_finding_message)
    ultimately show ?thesis using k(1) by blast
  qed
  from a b c show ?thesis by blast
qed

theorem unpaired_quotes_still_detected_witness:
  "(\<exists>k<length (findings_of (scan_unit unclosed_unit)).
      m_start (flagged (src_of unclosed_unit) ! k) = 0 \<and>
      message (findings_of (scan_unit unclosed_unit) ! k) =
        Some (''Obsolete function module '' @ [SQ] @ ''WS_UPLOAD'' @ [SQ] @ '' detected (non-Unicode).'')) \<and>
   (\<exists>k<length (findings_of (scan_unit mixed_unit)).
      m_start (flagged (src_of mixed_unit) ! k) = 0 \<and>
      message (findings_of (scan_unit mixed_unit) ! k) =
        Some (''Obsolete function module '' @ [SQ] @ ''DOWNLOAD'' @ [SQ] @ '' detected (non-Unicode).''))"
proof -
  have s1: "src_of unclosed_unit = [] @ call_stmt ''CALL'' '' '' ''FUNCTION'' '' '' [SQ] ''WS_UPLOAD'' [] [] @ []"
    and s2: "src_of mixed_unit = [] @
      call_stmt ''call'' '' '' ''function'' '' '' [SQ] ''download'' [DQ] '' EXPORTING a = b'' @ []"
    by (simp_all add: src_of_def unclosed_unit_def mixed_unit_def)
  have e: "([] :: string) = [] \<or> \<not> is_word (last [])" by simp
  have c1: "\<forall>i<length ([] :: string). \<forall>m. match_at STMT_RE (src_of unclosed_unit) i = Some m
      \<longrightarrow> m_end m \<le> length ([] :: string)"
    and c2: "\<forall>i<length ([] :: string). \<forall>m. match_at STMT_RE (src_of mixed_unit) i = Some m
      \<longrightarrow> m_end m \<le> length ([] :: string)"
    by simp_all
  from unpaired_quotes_still_detected [OF unpaired_facts(1) s1 e c1] unpaired_facts(3)
  have 1: "\<exists>k<length (findings_of (scan_unit unclosed_unit)).
      m_start (flagged (src_of unclosed_unit) ! k) = 0 \<and>
      message (findings_of (scan_unit unclosed_unit) ! k) =
        Some (''Obsolete function module '' @ [SQ] @ ''WS_UPLOAD'' @ [SQ] @ '' detected (non-Unicode).'')"
    unfolding unpaired_facts(5) by simp
  from unpaired_quotes_still_detected [OF unpaired_facts(2) s2 e c2] unpaired_facts(4)
  have 2: "\<exists>k<length (findings_of (scan_unit mixed_unit)).
      m_start (flagged (src_of mixed_unit) ! k) = 0 \<and>
      message (findings_of (scan_unit mixed_unit) ! k) =
        Some (''Obsolete function module '' @ [SQ] @ ''DOWNLOAD'' @ [SQ] @ '' detected (non-Unicode).'')"
    unfolding unpaired_facts(6) by simp
  from 1 2 show ?thesis by blast
qed

end
